theory Spec2Isabelle
  imports Complex_Main "HOL-Library.Multiset"
begin

section \<open>JavaScript values used by ReadingAge\<close>

text \<open>
  Strings are sequences of code units. The model takes Isabelle's \<open>string\<close>, so a code
  unit is one of U+0000 .. U+00FF (ASCII and Latin-1); \<open>length\<close> is JavaScript's
  \<open>.length\<close> on such strings.
\<close>

datatype jsnum = Fin real | PosInf | NegInf | NaN

datatype jsval = Str string | Num jsnum | Undefined

text \<open>What a \<open>throw\<close> carries: \<open>new TypeError(msg)\<close> or a bare string.\<close>

datatype exn = TypeError string | Thrown string

subsection \<open>Character classes\<close>

definition code :: "char \<Rightarrow> nat" where
  "code c = of_char c"

text \<open>\<open>[A-Za-z]\<close>\<close>

definition is_letter :: "char \<Rightarrow> bool" where
  "is_letter c = ((65 \<le> code c \<and> code c \<le> 90) \<or> (97 \<le> code c \<and> code c \<le> 122))"

text \<open>\<open>[^A-Za-z]\<close>\<close>

definition non_letter :: "char \<Rightarrow> bool" where
  "non_letter c = (\<not> is_letter c)"

text \<open>\<open>[aeiouy]\<close>\<close>

definition is_vowel :: "char \<Rightarrow> bool" where
  "is_vowel c = (c \<in> set ''aeiouy'')"

text \<open>
  \<open>\s\<close>: tab, line feed, vertical tab, form feed, carriage return, space and
  no-break space (the white space and line terminators below U+0100).
\<close>

definition is_space :: "char \<Rightarrow> bool" where
  "is_space c = (code c \<in> set [9, 10, 11, 12, 13, 32, 160])"

text \<open>\<open>[\.!\?]\<close> and \<open>[^\.\?\!]\<close>\<close>

definition is_terminator :: "char \<Rightarrow> bool" where
  "is_terminator c = (c \<in> set ''.!?'')"

definition non_terminator :: "char \<Rightarrow> bool" where
  "non_terminator c = (\<not> is_terminator c)"

definition is_char :: "char \<Rightarrow> char \<Rightarrow> bool" where
  "is_char a c = (c = a)"

definition newline :: char where
  "newline = CHR 0x0A"

subsection \<open>Regular expressions\<close>

text \<open>
  The patterns of the source are sequences of character classes, each matched once,
  optionally (\<open>?\<close>) or one or more times (\<open>+\<close>), possibly under an alternation and
  between the anchors \<open>^\<close> and \<open>$\<close>. \<open>Star\<close> is the rest of a \<open>+\<close> after its first
  character. Quantifiers are greedy and backtrack, as in JavaScript.
\<close>

datatype quant = One | Opt | Plus | Star

type_synonym atom = "(char \<Rightarrow> bool) \<times> quant"

datatype regex = Regex (from_start: bool) (alternatives: "atom list list") (to_end: bool)

text \<open>
  \<open>match_seq as eos s\<close>: the length of the match of the atoms \<open>as\<close> (followed by \<open>$\<close>
  when \<open>eos\<close>) at the beginning of \<open>s\<close>, or \<open>None\<close>.
\<close>

fun match_seq :: "atom list \<Rightarrow> bool \<Rightarrow> string \<Rightarrow> nat option" where
  "match_seq [] eos s = (if eos \<and> s \<noteq> [] then None else Some 0)"
| "match_seq ((p, One) # as) eos [] = None"
| "match_seq ((p, One) # as) eos (c # cs) =
     (if p c then map_option Suc (match_seq as eos cs) else None)"
| "match_seq ((p, Opt) # as) eos [] = match_seq as eos []"
| "match_seq ((p, Opt) # as) eos (c # cs) =
     (if p c
      then (case match_seq as eos cs of
              Some n \<Rightarrow> Some (Suc n)
            | None \<Rightarrow> match_seq as eos (c # cs))
      else match_seq as eos (c # cs))"
| "match_seq ((p, Plus) # as) eos [] = None"
| "match_seq ((p, Plus) # as) eos (c # cs) =
     (if p c then map_option Suc (match_seq ((p, Star) # as) eos cs) else None)"
| "match_seq ((p, Star) # as) eos [] = match_seq as eos []"
| "match_seq ((p, Star) # as) eos (c # cs) =
     (if p c
      then (case match_seq ((p, Star) # as) eos cs of
              Some n \<Rightarrow> Some (Suc n)
            | None \<Rightarrow> match_seq as eos (c # cs))
      else match_seq as eos (c # cs))"

text \<open>An alternation tries its alternatives from left to right.\<close>

fun first_alt :: "atom list list \<Rightarrow> bool \<Rightarrow> string \<Rightarrow> nat option" where
  "first_alt [] eos s = None"
| "first_alt (a # as) eos s =
     (case match_seq a eos s of Some n \<Rightarrow> Some n | None \<Rightarrow> first_alt as eos s)"

text \<open>
  A match attempt at one position; \<open>at_start\<close> says whether the position is index 0,
  the only place where \<open>^\<close> holds (no pattern of the source has the \<open>m\<close> flag).
\<close>

definition match_here :: "regex \<Rightarrow> bool \<Rightarrow> string \<Rightarrow> nat option" where
  "match_here r at_start s =
     (if from_start r \<and> \<not> at_start then None
      else first_alt (alternatives r) (to_end r) s)"

text \<open>\<open>String.prototype.search\<close>: the index of the leftmost match, or -1.\<close>

fun search_from :: "regex \<Rightarrow> bool \<Rightarrow> string \<Rightarrow> nat option" where
  "search_from r at_start [] =
     (case match_here r at_start [] of Some n \<Rightarrow> Some 0 | None \<Rightarrow> None)"
| "search_from r at_start (c # cs) =
     (case match_here r at_start (c # cs) of
        Some n \<Rightarrow> Some 0
      | None \<Rightarrow> map_option Suc (search_from r False cs))"

definition search :: "regex \<Rightarrow> string \<Rightarrow> int" where
  "search r s = (case search_from r True s of None \<Rightarrow> - 1 | Some i \<Rightarrow> int i)"

text \<open>\<open>String.prototype.replace\<close> with a pattern that has no \<open>g\<close> flag: the leftmost match.\<close>

fun replace_from :: "regex \<Rightarrow> string \<Rightarrow> bool \<Rightarrow> string \<Rightarrow> string" where
  "replace_from r rep at_start [] =
     (case match_here r at_start [] of Some n \<Rightarrow> rep | None \<Rightarrow> [])"
| "replace_from r rep at_start (c # cs) =
     (case match_here r at_start (c # cs) of
        Some n \<Rightarrow> rep @ drop n (c # cs)
      | None \<Rightarrow> c # replace_from r rep False cs)"

definition replace :: "regex \<Rightarrow> string \<Rightarrow> string \<Rightarrow> string" where
  "replace r rep s = replace_from r rep True s"

text \<open>A match never extends beyond the text it is tried on.\<close>

lemma match_seq_le: "match_seq as eos s = Some n \<Longrightarrow> n \<le> length s"
proof (induction as eos s arbitrary: n rule: match_seq.induct)
  case (5 p as eos c cs)
  then show ?case
    by (fastforce split: if_splits option.splits)
next
  case (9 p as eos c cs)
  then show ?case
    by (fastforce split: if_splits option.splits)
qed (fastforce split: if_splits)+

lemma first_alt_le: "first_alt alts eos s = Some n \<Longrightarrow> n \<le> length s"
  by (induction alts) (auto split: option.splits dest: match_seq_le)

lemma match_here_le: "match_here r at_start s = Some n \<Longrightarrow> n \<le> length s"
  by (auto simp: match_here_def split: if_splits dest: first_alt_le)

text \<open>
  Patterns with the \<open>g\<close> flag: the matches are taken from left to right, each search
  starting where the previous match ended, one code unit further after an empty match.
  \<open>replace_all\<close> is \<open>String.prototype.replace\<close>, \<open>match_all\<close> collects the matched
  substrings for \<open>String.prototype.match\<close>.
\<close>

function replace_all :: "regex \<Rightarrow> string \<Rightarrow> bool \<Rightarrow> string \<Rightarrow> string" where
  "replace_all r rep at_start s =
     (case match_here r at_start s of
        Some n \<Rightarrow>
          (if n = 0
           then (case s of [] \<Rightarrow> rep | c # cs \<Rightarrow> rep @ c # replace_all r rep False cs)
           else rep @ replace_all r rep False (drop n s))
      | None \<Rightarrow>
          (case s of [] \<Rightarrow> [] | c # cs \<Rightarrow> c # replace_all r rep False cs))"
  by pat_completeness auto
termination
  by (relation "measure (\<lambda>(r, rep, at_start, s). length s)")
    (auto dest: match_here_le)

declare replace_all.simps [simp del]

function match_all :: "regex \<Rightarrow> bool \<Rightarrow> string \<Rightarrow> string list" where
  "match_all r at_start s =
     (case match_here r at_start s of
        Some n \<Rightarrow>
          take n s #
          (if n = 0
           then (case s of [] \<Rightarrow> [] | c # cs \<Rightarrow> match_all r False cs)
           else match_all r False (drop n s))
      | None \<Rightarrow>
          (case s of [] \<Rightarrow> [] | c # cs \<Rightarrow> match_all r False cs))"
  by pat_completeness auto
termination
  by (relation "measure (\<lambda>(r, at_start, s). length s)")
    (auto dest: match_here_le)

declare match_all.simps [simp del]

definition replace_g :: "regex \<Rightarrow> string \<Rightarrow> string \<Rightarrow> string" where
  "replace_g r rep s = replace_all r rep True s"

text \<open>\<open>str.match(/.../g)\<close> is \<open>null\<close> (here \<open>None\<close>) when nothing matches.\<close>

definition match_g :: "regex \<Rightarrow> string \<Rightarrow> string list option" where
  "match_g r s = (case match_all r True s of [] \<Rightarrow> None | m # ms \<Rightarrow> Some (m # ms))"

subsection \<open>String methods\<close>

text \<open>\<open>str.replace(pat, rep)\<close> with a string pattern: only the first occurrence.\<close>

fun replace_str :: "string \<Rightarrow> string \<Rightarrow> string \<Rightarrow> string" where
  "replace_str pat rep [] = (if pat = [] then rep else [])"
| "replace_str pat rep (c # cs) =
     (if take (length pat) (c # cs) = pat then rep @ drop (length pat) (c # cs)
      else c # replace_str pat rep cs)"

text \<open>\<open>str.split(sep)\<close> for a separator of one code unit.\<close>

fun split :: "char \<Rightarrow> string \<Rightarrow> string list" where
  "split sep [] = [[]]"
| "split sep (c # cs) =
     (if c = sep then [] # split sep cs
      else (case split sep cs of
              [] \<Rightarrow> [[c]]
            | w # ws \<Rightarrow> (c # w) # ws))"

text \<open>\<open>str.lastIndexOf(pat)\<close>: the greatest index where \<open>pat\<close> occurs, or -1.\<close>

definition occurs_at :: "string \<Rightarrow> string \<Rightarrow> nat \<Rightarrow> bool" where
  "occurs_at pat s i = (i + length pat \<le> length s \<and> take (length pat) (drop i s) = pat)"

definition lastIndexOf :: "string \<Rightarrow> string \<Rightarrow> int" where
  "lastIndexOf s pat =
     (case filter (occurs_at pat s) (rev [0..<Suc (length s)]) of
        [] \<Rightarrow> - 1
      | i # _ \<Rightarrow> int i)"

text \<open>
  \<open>str.toLowerCase()\<close> on code units below U+0100: A-Z and the Latin-1 capitals
  U+00C0 .. U+00DE (without the multiplication sign U+00D7) move up by 32.
\<close>

definition lower_char :: "char \<Rightarrow> char" where
  "lower_char c =
     (if (65 \<le> code c \<and> code c \<le> 90) \<or> (192 \<le> code c \<and> code c \<le> 222 \<and> code c \<noteq> 215)
      then char_of (code c + 32) else c)"

definition toLowerCase :: "string \<Rightarrow> string" where
  "toLowerCase s = map lower_char s"

section \<open>ReadingAge\<close>

subsection \<open>The patterns of the source\<close>

text \<open>\<open>/\s/g\<close>\<close>

definition re_space :: regex where
  "re_space = Regex False [[(is_space, One)]] False"

text \<open>\<open>/(es|ed|e)$/\<close>\<close>

definition re_final :: regex where
  "re_final = Regex False
     [[(is_char CHR ''e'', One), (is_char CHR ''s'', One)],
      [(is_char CHR ''e'', One), (is_char CHR ''d'', One)],
      [(is_char CHR ''e'', One)]] True"

text \<open>\<open>/[aeiouy]+/g\<close>\<close>

definition re_vowels :: regex where
  "re_vowels = Regex False [[(is_vowel, Plus)]] False"

text \<open>\<open>/[aeiouy]/g\<close>\<close>

definition re_vowel :: regex where
  "re_vowel = Regex False [[(is_vowel, One)]] False"

subsection \<open>getNumSyllablesInWord\<close>

definition getNumSyllablesInWord :: "jsval \<Rightarrow> exn + nat" where
  "getNumSyllablesInWord v =
     (case v of
        Str word \<Rightarrow>
          if length word = 0 then Inl (Thrown ''Empty string.'')
          else if search re_space word \<noteq> - 1 then Inl (Thrown ''Contains whitespace.'')
          else if length word \<le> 3 then Inr 1
          else
            let word = toLowerCase word;
                word = (if lastIndexOf word ''le'' \<noteq> int (length word) - 2
                        then replace re_final [] word else word);
                word = replace_g re_vowels ''a'' word
            in (case match_g re_vowel word of
                  None \<Rightarrow> Inr 0
                | Some matches \<Rightarrow> Inr (length matches))
      | _ \<Rightarrow> Inl (TypeError ''A string is required.''))"

subsection \<open>trimNonLetters\<close>

text \<open>\<open>/^[^A-Za-z]+/g\<close> and \<open>/[^A-Za-z]+$/g\<close>\<close>

definition re_leading :: regex where
  "re_leading = Regex True [[(non_letter, Plus)]] False"

definition re_trailing :: regex where
  "re_trailing = Regex False [[(non_letter, Plus)]] True"

definition trimNonLetters :: "string \<Rightarrow> string" where
  "trimNonLetters str =
     (let str = replace_str [newline] '' '' str;
          str = replace_g re_leading [] str;
          str = replace_g re_trailing [] str
      in str)"

subsection \<open>trimNonLettersFromArray\<close>

text \<open>
  The callback of \<open>ary.forEach(function (i) {...})\<close> receives the element, not its
  index, so \<open>ary[i]\<close> reads the property of the array whose name is the element.
  That property is an element of the array when the name is a canonical array index
  (decimal digits, no leading zero) below the length; otherwise it is no string (the
  properties \<open>length\<close>, \<open>constructor\<close> and the methods of the prototype are numbers and
  functions, every other name is undefined).
\<close>

definition is_digit :: "char \<Rightarrow> bool" where
  "is_digit c = (48 \<le> code c \<and> code c \<le> 57)"

definition digits_value :: "string \<Rightarrow> nat" where
  "digits_value k = foldl (\<lambda>n c. 10 * n + (code c - 48)) 0 k"

definition array_index :: "string \<Rightarrow> nat option" where
  "array_index k =
     (if k \<noteq> [] \<and> list_all is_digit k \<and> (length k = 1 \<or> hd k \<noteq> CHR ''0'')
      then Some (digits_value k) else None)"

definition get_prop :: "string list \<Rightarrow> string \<Rightarrow> jsval" where
  "get_prop ary k =
     (case array_index k of
        None \<Rightarrow> Undefined
      | Some j \<Rightarrow> if j < length ary then Str (ary ! j) else Undefined)"

text \<open>
  \<open>forEach\<close> visits the indices below the length in order and passes the element that
  is there at the time of the visit.
\<close>

function trimNonLettersFromArray_loop :: "nat \<Rightarrow> string list \<Rightarrow> string list" where
  "trimNonLettersFromArray_loop k ary =
     (if k < length ary
      then (let i = ary ! k in
            case get_prop ary i of
              Str x \<Rightarrow>
                trimNonLettersFromArray_loop (Suc k)
                  (ary[digits_value i := trimNonLetters x])
            | _ \<Rightarrow> trimNonLettersFromArray_loop (Suc k) ary)
      else ary)"
  by pat_completeness auto
termination
  by (relation "measure (\<lambda>(k, ary). length ary - k)") auto

declare trimNonLettersFromArray_loop.simps [simp del]

definition trimNonLettersFromArray :: "string list \<Rightarrow> string list" where
  "trimNonLettersFromArray ary = trimNonLettersFromArray_loop 0 ary"

subsection \<open>findFirstEmptyWord and removeEmptyWords\<close>

text \<open>\<open>/[A-Za-z]/\<close>\<close>

definition re_letter :: regex where
  "re_letter = Regex False [[(is_letter, One)]] False"

function findFirstEmptyWord_loop :: "nat \<Rightarrow> string list \<Rightarrow> int" where
  "findFirstEmptyWord_loop i ary =
     (if i < length ary
      then (if search re_letter (ary ! i) = - 1 then int i
            else findFirstEmptyWord_loop (i + 1) ary)
      else - 1)"
  by pat_completeness auto
termination
  by (relation "measure (\<lambda>(i, ary). length ary - i)") auto

declare findFirstEmptyWord_loop.simps [simp del]

definition findFirstEmptyWord :: "string list \<Rightarrow> int" where
  "findFirstEmptyWord ary = findFirstEmptyWord_loop 0 ary"

lemma findFirstEmptyWord_loop_range:
  "findFirstEmptyWord_loop i ary \<noteq> - 1 \<Longrightarrow>
   0 \<le> findFirstEmptyWord_loop i ary \<and> findFirstEmptyWord_loop i ary < int (length ary)"
proof (induction i ary rule: findFirstEmptyWord_loop.induct)
  case (1 i ary)
  have unfold: "findFirstEmptyWord_loop i ary =
     (if i < length ary
      then (if search re_letter (ary ! i) = - 1 then int i
            else findFirstEmptyWord_loop (i + 1) ary)
      else - 1)"
    by (rule findFirstEmptyWord_loop.simps)
  show ?case
  proof (cases "i < length ary \<and> search re_letter (ary ! i) \<noteq> - 1")
    case True
    with unfold have "findFirstEmptyWord_loop i ary = findFirstEmptyWord_loop (i + 1) ary"
      by simp
    with "1.IH" "1.prems" True show ?thesis by simp
  next
    case False
    with unfold "1.prems" show ?thesis by (auto split: if_splits)
  qed
qed

text \<open>\<open>ary.splice(position, 1)\<close>\<close>

definition splice1 :: "nat \<Rightarrow> 'a list \<Rightarrow> 'a list" where
  "splice1 position ary = take position ary @ drop (Suc position) ary"

function removeEmptyWords :: "string list \<Rightarrow> string list" where
  "removeEmptyWords ary =
     (let position = findFirstEmptyWord ary in
      if position \<noteq> - 1 then removeEmptyWords (splice1 (nat position) ary) else ary)"
  by pat_completeness auto
termination
proof (relation "measure length", goal_cases)
  case 1
  show ?case by simp
next
  case (2 ary position)
  then have "0 \<le> position \<and> position < int (length ary)"
    using findFirstEmptyWord_loop_range [of 0 ary] by (simp add: findFirstEmptyWord_def)
  then show ?case by (simp add: splice1_def) linarith
qed

declare removeEmptyWords.simps [simp del]

subsection \<open>getWords and getSentences\<close>

text \<open>\<open>/\n+/g\<close> and \<open>/\s+/g\<close>\<close>

definition re_newlines :: regex where
  "re_newlines = Regex False [[(is_char newline, Plus)]] False"

definition re_spaces :: regex where
  "re_spaces = Regex False [[(is_space, Plus)]] False"

text \<open>
  The result of the second \<open>replace\<close> is not assigned in the source
  (\<open>text.replace(/\s+/g, " ");\<close>), so \<open>split\<close> sees the text after the first one.
\<close>

definition getWords :: "jsval \<Rightarrow> exn + string list" where
  "getWords v =
     (case v of
        Str text \<Rightarrow>
          if length text = 0 then Inr []
          else
            let text = replace_g re_newlines '' '' text;
                unassigned = replace_g re_spaces '' '' text;
                words = split CHR '' '' text;
                words = trimNonLettersFromArray words;
                words = removeEmptyWords words
            in Inr words
      | _ \<Rightarrow> Inl (TypeError ''A string is required.''))"

text \<open>\<open>/\(?[^\.\?\!]+[\.!\?]\)?/g\<close> and \<open>/\(?[^\.\?\!]+$/g\<close>\<close>

definition re_sentence :: regex where
  "re_sentence = Regex False
     [[(is_char CHR ''('', Opt), (non_terminator, Plus), (is_terminator, One),
       (is_char CHR '')'', Opt)]] False"

definition re_fragment :: regex where
  "re_fragment = Regex False [[(is_char CHR ''('', Opt), (non_terminator, Plus)]] True"

definition getSentences :: "jsval \<Rightarrow> exn + string list" where
  "getSentences v =
     (case v of
        Str text \<Rightarrow>
          if length text = 0 then Inr []
          else
            let text = replace_g re_newlines '' '' text;
                matches = match_g re_sentence text;
                finalMatch = match_g re_fragment text;
                matches = (case matches of None \<Rightarrow> [] | Some ms \<Rightarrow> ms);
                matches = (case finalMatch of
                             None \<Rightarrow> matches
                           | Some fm \<Rightarrow> matches @ take 1 fm)
            in Inr matches
      | _ \<Rightarrow> Inl (TypeError ''A string is required.''))"

subsection \<open>Syllables and complex words of a list of words\<close>

text \<open>
  \<open>getNumSyllablesPerWord\<close>: the \<open>catch\<close> only writes to the console, so a word whose
  count throws adds nothing to \<open>result\<close>.
\<close>

definition getNumSyllablesPerWord :: "string list \<Rightarrow> nat list" where
  "getNumSyllablesPerWord aryOfWords =
     foldl (\<lambda>result word.
              case getNumSyllablesInWord (Str word) of
                Inr n \<Rightarrow> result @ [n]
              | Inl e \<Rightarrow> result)
           [] aryOfWords"

definition getComplexWordPositions :: "nat list \<Rightarrow> nat list" where
  "getComplexWordPositions aryOfNumSyllables =
     foldl (\<lambda>result (syl, i). if syl \<ge> 3 then result @ [i] else result)
           [] (zip aryOfNumSyllables [0..<length aryOfNumSyllables])"

text \<open>\<open>aryOfWords[position]\<close> is \<open>undefined\<close> beyond the end of the array.\<close>

definition getComplexWords :: "string list \<Rightarrow> nat list \<Rightarrow> jsval list" where
  "getComplexWords aryOfWords aryOfComplexWordPositions =
     foldl (\<lambda>result position.
              result @ [if position < length aryOfWords then Str (aryOfWords ! position)
                        else Undefined])
           [] aryOfComplexWordPositions"

definition arrayAdd :: "nat list \<Rightarrow> nat" where
  "arrayAdd ary = foldl (\<lambda>result n. result + n) 0 ary"

subsection \<open>Numbers\<close>

text \<open>
  A JavaScript number is an IEEE-754 double: a finite value, an infinity or NaN.
  \<open>Fin x\<close> is the double of the value \<open>x\<close>. Addition, subtraction, multiplication and
  division compute the exact result and round it to the nearest double (\<open>to_double\<close>).
  The sign of zero is not modelled: both zeros are \<open>Fin 0\<close>, and a division by zero
  takes the zero for positive (the zeros that \<open>parseText\<close> divides by are counts).
\<close>

text \<open>\<open>pow2 e\<close> is 2 to the power of the integer \<open>e\<close>.\<close>

definition pow2 :: "int \<Rightarrow> real" where
  "pow2 e = (if 0 \<le> e then 2 ^ nat e else 1 / 2 ^ nat (- e))"

text \<open>
  The significand and the exponent of a positive number: \<open>normal_form x = (y, e)\<close> with
  \<open>x = y * 2^e\<close>, where \<open>y\<close> lies between 2^52 and 2^53, or below 2^52 at the least
  exponent -1074 (a subnormal number).
\<close>

function scale_down :: "real \<Rightarrow> int \<Rightarrow> real \<times> int" where
  "scale_down y e = (if 2 ^ 53 \<le> y then scale_down (y / 2) (e + 1) else (y, e))"
  by pat_completeness auto
termination
proof (relation "measure (\<lambda>(y, e). nat \<lfloor>y\<rfloor>)", goal_cases)
  case 1
  show ?case by simp
next
  case (2 y e)
  then have "2 \<le> y" by (simp add: order_trans [of 2 "2 ^ 53" y])
  then have "\<lfloor>y / 2\<rfloor> < \<lfloor>y\<rfloor>" by linarith
  moreover from \<open>2 \<le> y\<close> have "0 < \<lfloor>y\<rfloor>" by linarith
  ultimately show ?case by simp
qed

declare scale_down.simps [simp del]

function scale_up :: "real \<Rightarrow> int \<Rightarrow> real \<times> int" where
  "scale_up y e = (if y < 2 ^ 52 \<and> - 1074 < e then scale_up (2 * y) (e - 1) else (y, e))"
  by pat_completeness auto
termination
  by (relation "measure (\<lambda>(y, e). nat (e + 1074))") auto

declare scale_up.simps [simp del]

definition normal_form :: "real \<Rightarrow> real \<times> int" where
  "normal_form x = (case scale_down x 0 of (y, e) \<Rightarrow> scale_up y e)"

text \<open>Rounding to the nearest integer, a tie to the even one.\<close>

definition round_half_even :: "real \<Rightarrow> int" where
  "round_half_even y =
     (let f = \<lfloor>y\<rfloor>; d = y - of_int f
      in if d < 1 / 2 then f else if 1 / 2 < d then f + 1 else if even f then f else f + 1)"

text \<open>
  The double nearest to a real number: the significand is rounded to an integer; a
  result of 2^1024 or more is an infinity.
\<close>

definition to_double :: "real \<Rightarrow> jsnum" where
  "to_double x =
     (if x = 0 then Fin 0
      else
        case normal_form \<bar>x\<bar> of (y, e) \<Rightarrow>
          let v = of_int (round_half_even y) * pow2 e
          in if 2 ^ 1024 \<le> v then (if 0 < x then PosInf else NegInf)
             else Fin (if 0 < x then v else - v))"

text \<open>The number of an array length, and the number that a literal of the source denotes.\<close>

definition of_count :: "nat \<Rightarrow> jsnum" where
  "of_count n = to_double (real n)"

definition literal :: "real \<Rightarrow> jsnum" where
  "literal x = to_double x"

fun jneg :: "jsnum \<Rightarrow> jsnum" where
  "jneg (Fin a) = Fin (- a)"
| "jneg PosInf = NegInf"
| "jneg NegInf = PosInf"
| "jneg NaN = NaN"

fun jadd :: "jsnum \<Rightarrow> jsnum \<Rightarrow> jsnum" where
  "jadd NaN y = NaN"
| "jadd x NaN = NaN"
| "jadd (Fin a) (Fin b) = to_double (a + b)"
| "jadd PosInf NegInf = NaN"
| "jadd NegInf PosInf = NaN"
| "jadd PosInf y = PosInf"
| "jadd NegInf y = NegInf"
| "jadd (Fin a) y = y"

definition jsub :: "jsnum \<Rightarrow> jsnum \<Rightarrow> jsnum" where
  "jsub x y = jadd x (jneg y)"

fun jmul :: "jsnum \<Rightarrow> jsnum \<Rightarrow> jsnum" where
  "jmul NaN y = NaN"
| "jmul x NaN = NaN"
| "jmul (Fin a) (Fin b) = to_double (a * b)"
| "jmul (Fin a) PosInf = (if a = 0 then NaN else if a > 0 then PosInf else NegInf)"
| "jmul (Fin a) NegInf = (if a = 0 then NaN else if a > 0 then NegInf else PosInf)"
| "jmul PosInf (Fin b) = (if b = 0 then NaN else if b > 0 then PosInf else NegInf)"
| "jmul NegInf (Fin b) = (if b = 0 then NaN else if b > 0 then NegInf else PosInf)"
| "jmul PosInf PosInf = PosInf"
| "jmul NegInf NegInf = PosInf"
| "jmul PosInf NegInf = NegInf"
| "jmul NegInf PosInf = NegInf"

fun jdiv :: "jsnum \<Rightarrow> jsnum \<Rightarrow> jsnum" where
  "jdiv NaN y = NaN"
| "jdiv x NaN = NaN"
| "jdiv (Fin a) (Fin b) =
     (if b = 0 then (if a = 0 then NaN else if a > 0 then PosInf else NegInf)
      else to_double (a / b))"
| "jdiv (Fin a) y = Fin 0"
| "jdiv PosInf (Fin b) = (if b \<ge> 0 then PosInf else NegInf)"
| "jdiv NegInf (Fin b) = (if b \<ge> 0 then NegInf else PosInf)"
| "jdiv x y = NaN"

text \<open>\<open>Math.sqrt\<close>, as the engines compute it: the root, rounded to a double.\<close>

fun jsqrt :: "jsnum \<Rightarrow> jsnum" where
  "jsqrt (Fin a) = (if a < 0 then NaN else to_double (sqrt a))"
| "jsqrt PosInf = PosInf"
| "jsqrt NegInf = NaN"
| "jsqrt NaN = NaN"

subsection \<open>parseText\<close>

record result =
  source :: jsval
  sentences :: "string list"
  numSentences :: nat
  words :: "string list"
  numWords :: nat
  syllables :: "nat list"
  numSyllables :: nat
  complexWordPositions :: "nat list"
  numComplexWords :: nat
  complexWords :: "jsval list"
  averageWordsPerSentence :: jsnum
  averageSyllablesPerWord :: jsnum
  complexWordRatio :: jsnum
  complexWordsPerSentence :: jsnum
  fleschKincaidReadingEase :: jsnum
  fleschKincaidGradeLevel :: jsnum
  gunningFogIndex :: jsnum
  smogIndex :: jsnum

definition parseText :: "jsval \<Rightarrow> exn + result" where
  "parseText text =
     (case getSentences text of
        Inl e \<Rightarrow> Inl e
      | Inr the_sentences \<Rightarrow>
     (case getWords text of
        Inl e \<Rightarrow> Inl e
      | Inr the_words \<Rightarrow>
        let n_sentences = length the_sentences;
            n_words = length the_words;
            the_syllables = getNumSyllablesPerWord the_words;
            n_syllables = arrayAdd the_syllables;
            positions = getComplexWordPositions the_syllables;
            n_complex = length positions;
            complex = getComplexWords the_words positions;
            wordsPerSentence = jdiv (of_count n_words) (of_count n_sentences);
            syllablesPerWord = jdiv (of_count n_syllables) (of_count n_words);
            complexRatio = jdiv (of_count n_complex) (of_count n_words);
            complexPerSentence = jdiv (of_count n_complex) (of_count n_sentences)
        in Inr \<lparr>
             source = text,
             sentences = the_sentences,
             numSentences = n_sentences,
             words = the_words,
             numWords = n_words,
             syllables = the_syllables,
             numSyllables = n_syllables,
             complexWordPositions = positions,
             numComplexWords = n_complex,
             complexWords = complex,
             averageWordsPerSentence = wordsPerSentence,
             averageSyllablesPerWord = syllablesPerWord,
             complexWordRatio = complexRatio,
             complexWordsPerSentence = complexPerSentence,
             fleschKincaidReadingEase =
               jsub (jsub (literal 206.835) (jmul (literal 1.015) wordsPerSentence))
                    (jmul (literal 84.6) syllablesPerWord),
             fleschKincaidGradeLevel =
               jsub (jadd (jmul (literal 0.39) wordsPerSentence)
                          (jmul (literal 11.8) syllablesPerWord))
                    (literal 15.59),
             gunningFogIndex =
               jmul (literal 0.4) (jadd wordsPerSentence (jmul (literal 100) complexRatio)),
             smogIndex =
               jadd (jmul (literal 1.0430) (jsqrt (jmul (literal 30) complexPerSentence)))
                    (literal 3.1291)
           \<rparr>))"

subsection \<open>deepParseText\<close>

definition sortFleschKincaidGradeLevelDescending :: "result \<Rightarrow> result \<Rightarrow> jsnum" where
  "sortFleschKincaidGradeLevelDescending a b =
     jsub (fleschKincaidGradeLevel b) (fleschKincaidGradeLevel a)"

text \<open>
  The loop over the sentences: \<open>parseText\<close> of each, an exception is logged and thrown
  again.
\<close>

fun parse_each :: "string list \<Rightarrow> result list \<Rightarrow> exn + result list" where
  "parse_each [] parsed = Inr parsed"
| "parse_each (sentence # rest) parsed =
     (case parseText (Str sentence) of
        Inl e \<Rightarrow> Inl e
      | Inr r \<Rightarrow> parse_each rest (parsed @ [r]))"

record deep_result = result +
  parsedSentences :: "result list"

text \<open>
  \<open>Array.prototype.sort\<close> belongs to the engine, not to the source, and ECMAScript
  leaves the order open where the comparison function is not consistent. The model
  takes the function as a parameter: it maps the comparison function and the array to
  the array after sorting.
\<close>

type_synonym sort_function = "(result \<Rightarrow> result \<Rightarrow> jsnum) \<Rightarrow> result list \<Rightarrow> result list"

definition deepParseText :: "sort_function \<Rightarrow> jsval \<Rightarrow> exn + deep_result" where
  "deepParseText array_sort text =
     (case parseText text of
        Inl e \<Rightarrow> Inl e
      | Inr r \<Rightarrow>
          (case parse_each (sentences r) [] of
             Inl e \<Rightarrow> Inl e
           | Inr parsed \<Rightarrow>
               Inr (result.extend r
                      (deep_result.fields
                         (array_sort sortFleschKincaidGradeLevelDescending parsed)))))"

section \<open>Vocabulary of the properties\<close>

text \<open>A word without white space, as \<open>getNumSyllablesInWord\<close> requires it.\<close>

definition no_whitespace :: "string \<Rightarrow> bool" where
  "no_whitespace w = list_all (\<lambda>c. \<not> is_space c) w"

text \<open>A token with at least one of \<open>A-Z\<close>, \<open>a-z\<close>.\<close>

definition has_letter :: "string \<Rightarrow> bool" where
  "has_letter w = list_ex is_letter w"

text \<open>
  The rules of the syllable estimate in the words of the specification: a word that
  does not end in \<open>le\<close> loses one final \<open>es\<close>, \<open>ed\<close> or \<open>e\<close> (the first of these that it
  ends in), and the estimate is the number of maximal runs of vowels in what is left.
\<close>

definition ends_with :: "string \<Rightarrow> string \<Rightarrow> bool" where
  "ends_with w suf = (length suf \<le> length w \<and> drop (length w - length suf) w = suf)"

definition strip_final_suffix :: "string \<Rightarrow> string" where
  "strip_final_suffix w =
     (if ends_with w ''es'' then take (length w - 2) w
      else if ends_with w ''ed'' then take (length w - 2) w
      else if ends_with w ''e'' then take (length w - 1) w
      else w)"

function vowel_runs :: "string \<Rightarrow> nat" where
  "vowel_runs [] = 0"
| "vowel_runs (c # cs) =
     (if is_vowel c then Suc (vowel_runs (dropWhile is_vowel cs)) else vowel_runs cs)"
  by pat_completeness auto
termination
  by (relation "measure length") (auto simp: le_imp_less_Suc length_dropWhile_le)

text \<open>\<open>x >= y\<close> on numbers: false when either side is NaN.\<close>

fun jge :: "jsnum \<Rightarrow> jsnum \<Rightarrow> bool" where
  "jge NaN y = False"
| "jge x NaN = False"
| "jge (Fin a) (Fin b) = (a \<ge> b)"
| "jge PosInf y = True"
| "jge x NegInf = True"
| "jge x y = False"

text \<open>A list of results in the order of non-increasing Flesch-Kincaid grade level.\<close>

definition grade_sorted :: "result list \<Rightarrow> bool" where
  "grade_sorted rs =
     sorted_wrt (\<lambda>a b. jge (fleschKincaidGradeLevel a) (fleschKincaidGradeLevel b)) rs"

text \<open>The record that \<open>parseText\<close> returns for a string.\<close>

definition parse_of :: "string \<Rightarrow> result" where
  "parse_of t = projr (parseText (Str t))"

text \<open>A number that is NaN or an infinity.\<close>

definition nan_or_infinity :: "jsnum \<Rightarrow> bool" where
  "nan_or_infinity x = (case x of Fin a \<Rightarrow> False | PosInf \<Rightarrow> True | NegInf \<Rightarrow> True | NaN \<Rightarrow> True)"

text \<open>A text without \<open>.\<close>, \<open>!\<close> and \<open>?\<close>.\<close>

definition no_terminator :: "string \<Rightarrow> bool" where
  "no_terminator s = list_all non_terminator s"

text \<open>The arrays that \<open>getSentences\<close> and \<open>getWords\<close> return for a string.\<close>

definition sentences_of :: "string \<Rightarrow> string list" where
  "sentences_of t = (case getSentences (Str t) of Inr ss \<Rightarrow> ss | Inl e \<Rightarrow> [])"

definition words_of :: "string \<Rightarrow> string list" where
  "words_of t = (case getWords (Str t) of Inr ws \<Rightarrow> ws | Inl e \<Rightarrow> [])"

section \<open>Rounding to a double\<close>

lemma pow2_powr: "pow2 e = 2 powr (real_of_int e)"
proof (cases "0 \<le> e")
  case True
  have "(2::real) powr real (nat e) = 2 ^ nat e" by (rule powr_realpow) simp
  moreover from True have "real (nat e) = real_of_int e" by simp
  ultimately show ?thesis using True by (simp add: pow2_def)
next
  case False
  have "(2::real) powr real (nat (- e)) = 2 ^ nat (- e)" by (rule powr_realpow) simp
  moreover from False have "real (nat (- e)) = - real_of_int e" by simp
  ultimately have "(2::real) powr (- real_of_int e) = 2 ^ nat (- e)" by simp
  then have "(2::real) powr real_of_int e = 1 / 2 ^ nat (- e)"
    by (simp add: powr_minus field_simps)
  with False show ?thesis by (simp add: pow2_def)
qed

lemma pow2_0: "pow2 0 = 1"
  by (simp add: pow2_def)

lemma pow2_pos: "0 < pow2 e"
  by (simp add: pow2_powr)

lemma pow2_Suc: "pow2 (e + 1) = 2 * pow2 e"
  by (simp add: pow2_powr powr_add)

lemma pow2_pred: "2 * pow2 (e - 1) = pow2 e"
  using pow2_Suc [of "e - 1"] by simp

lemma pow2_mono: "e < e' \<Longrightarrow> 2 * pow2 e \<le> pow2 e'"
proof -
  assume "e < e'"
  then have "e + 1 \<le> e'" by simp
  then have "pow2 (e + 1) \<le> pow2 e'" by (simp add: pow2_powr)
  then show ?thesis by (simp add: pow2_Suc)
qed

lemma scale_down_spec:
  assumes "0 < y" and "scale_down y e = (y', e')"
  shows "y' * pow2 e' = y * pow2 e \<and> e \<le> e' \<and> 0 < y' \<and> y' < 2 ^ 53
         \<and> (e < e' \<longrightarrow> 2 ^ 52 \<le> y') \<and> (e = e' \<longrightarrow> y' = y)"
  using assms
proof (induction y e rule: scale_down.induct)
  case (1 y e)
  show ?case
  proof (cases "2 ^ 53 \<le> y")
    case False
    with "1.prems" show ?thesis by (subst (asm) scale_down.simps) auto
  next
    case True
    with "1.prems" have r: "scale_down (y / 2) (e + 1) = (y', e')"
      by (subst (asm) scale_down.simps) simp
    from "1.prems" have h: "0 < y / 2" by simp
    note ih = "1.IH" [OF True h r]
    have "2 ^ 52 \<le> y'"
    proof (cases "e + 1 = e'")
      case True
      with ih have "y' = y / 2" by simp
      with \<open>2 ^ 53 \<le> y\<close> show ?thesis by simp
    next
      case False
      with ih show ?thesis by simp
    qed
    with ih show ?thesis by (simp add: pow2_Suc)
  qed
qed

lemma scale_up_spec:
  assumes "0 < y" and "y < 2 ^ 53" and "- 1074 \<le> e" and "scale_up y e = (y', e')"
  shows "y' * pow2 e' = y * pow2 e \<and> - 1074 \<le> e' \<and> 0 < y' \<and> y' < 2 ^ 53
         \<and> (2 ^ 52 \<le> y' \<or> e' = - 1074)"
  using assms
proof (induction y e rule: scale_up.induct)
  case (1 y e)
  show ?case
  proof (cases "y < 2 ^ 52 \<and> - 1074 < e")
    case False
    with "1.prems" show ?thesis by (subst (asm) scale_up.simps) auto
  next
    case True
    with "1.prems" have r: "scale_up (2 * y) (e - 1) = (y', e')"
      by (subst (asm) scale_up.simps) simp
    from "1.prems" True have h: "0 < 2 * y" "2 * y < 2 ^ 53" "- 1074 \<le> e - 1" by simp_all
    from "1.IH" [OF True h r] pow2_pred [of e] show ?thesis
      by (simp add: mult.assoc mult.left_commute)
  qed
qed

lemma normal_form_spec:
  assumes "0 < x" and "normal_form x = (y, e)"
  shows "y * pow2 e = x \<and> - 1074 \<le> e \<and> 0 < y \<and> y < 2 ^ 53 \<and> (2 ^ 52 \<le> y \<or> e = - 1074)"
proof -
  obtain y1 e1 where d: "scale_down x 0 = (y1, e1)" by (cases "scale_down x 0") auto
  with assms(2) have u: "scale_up y1 e1 = (y, e)" by (simp add: normal_form_def)
  from scale_down_spec [OF assms(1) d]
  have d': "y1 * pow2 e1 = x" "0 \<le> e1" "0 < y1" "y1 < 2 ^ 53" by (simp_all add: pow2_0)
  from d'(2) have "- 1074 \<le> e1" by simp
  from scale_up_spec [OF d'(3,4) this u] d'(1) show ?thesis by simp
qed

lemma normal_unique_aux:
  assumes "y * pow2 e = y' * pow2 e'" and "e < e'"
    and "- 1074 \<le> e" and "y < 2 ^ 53" and "0 < y'" and "2 ^ 52 \<le> y' \<or> e' = - 1074"
  shows False
proof -
  from assms(2,3,6) have y': "2 ^ 52 \<le> y'" by auto
  have "2 * pow2 e \<le> pow2 e'" using assms(2) by (rule pow2_mono)
  then have "y' * (2 * pow2 e) \<le> y' * pow2 e'" using assms(5) by simp
  with assms(1) have "(2 * y') * pow2 e \<le> y * pow2 e" by (simp add: mult.assoc mult.left_commute)
  then have "2 * y' \<le> y" using pow2_pos [of e] by simp
  with y' assms(4) show False by simp
qed

lemma normal_unique:
  assumes "y * pow2 e = y' * pow2 e'"
    and "- 1074 \<le> e" and "0 < y" and "y < 2 ^ 53" and "2 ^ 52 \<le> y \<or> e = - 1074"
    and "- 1074 \<le> e'" and "0 < y'" and "y' < 2 ^ 53" and "2 ^ 52 \<le> y' \<or> e' = - 1074"
  shows "y = y' \<and> e = e'"
proof -
  have "\<not> e < e'" using normal_unique_aux [OF assms(1) _ assms(2,4,7,9)] by blast
  moreover have "\<not> e' < e" using normal_unique_aux [OF assms(1) [symmetric] _ assms(6,8,3,5)] by blast
  ultimately have e: "e = e'" by simp
  with assms(1) pow2_pos [of e] have "y = y'" by simp
  with e show ?thesis by simp
qed

lemma normal_form_eq:
  assumes "0 < y" and "y < 2 ^ 53" and "- 1074 \<le> e" and "2 ^ 52 \<le> y \<or> e = - 1074"
  shows "normal_form (y * pow2 e) = (y, e)"
proof -
  have x: "0 < y * pow2 e" using assms(1) pow2_pos [of e] by simp
  obtain y' e' where n: "normal_form (y * pow2 e) = (y', e')"
    by (cases "normal_form (y * pow2 e)") auto
  from normal_form_spec [OF x n]
  have s: "y' * pow2 e' = y * pow2 e" "- 1074 \<le> e'" "0 < y'" "y' < 2 ^ 53" "2 ^ 52 \<le> y' \<or> e' = - 1074"
    by simp_all
  from normal_unique [OF s(1) s(2-5) assms(3,1,2,4)] n show ?thesis by simp
qed

lemma round_half_even_int: "round_half_even (of_int m) = m"
  by (simp add: round_half_even_def)

lemma round_half_even_ge: "of_int k \<le> y \<Longrightarrow> k \<le> round_half_even y"
proof -
  assume "of_int k \<le> y"
  then have "k \<le> \<lfloor>y\<rfloor>" by (simp add: le_floor_iff)
  then show ?thesis by (auto simp: round_half_even_def Let_def)
qed

lemma round_half_even_le: "y \<le> of_int k \<Longrightarrow> round_half_even y \<le> k"
proof -
  assume a: "y \<le> of_int k"
  show ?thesis
  proof (cases "y = of_int k")
    case True
    then show ?thesis by (simp add: round_half_even_int)
  next
    case False
    with a have "y < of_int k" by simp
    then have "\<lfloor>y\<rfloor> < k" by (simp add: floor_less_iff)
    then show ?thesis by (auto simp: round_half_even_def Let_def)
  qed
qed

lemma to_double_0: "to_double 0 = Fin 0"
  by (simp add: to_double_def)

lemma to_double_finite:
  assumes "to_double x = Fin v" and "x \<noteq> 0"
  obtains y e where "normal_form \<bar>x\<bar> = (y, e)"
    and "of_int (round_half_even y) * pow2 e < 2 ^ 1024"
    and "v = (if 0 < x then of_int (round_half_even y) * pow2 e
              else - (of_int (round_half_even y) * pow2 e))"
proof -
  obtain y e where n: "normal_form \<bar>x\<bar> = (y, e)" by (cases "normal_form \<bar>x\<bar>") auto
  with assms have "of_int (round_half_even y) * pow2 e < 2 ^ 1024"
    and "v = (if 0 < x then of_int (round_half_even y) * pow2 e
              else - (of_int (round_half_even y) * pow2 e))"
    by (auto simp: to_double_def Let_def split: if_splits)
  with n that show ?thesis by blast
qed

lemma to_double_representable:
  assumes "0 < m" and "real_of_int m * pow2 e < 2 ^ 1024"
    and "normal_form (real_of_int m * pow2 e) = (real_of_int m', e')"
    and "real_of_int m' * pow2 e' = real_of_int m * pow2 e"
  shows "to_double (real_of_int m * pow2 e) = Fin (real_of_int m * pow2 e)"
    and "to_double (- (real_of_int m * pow2 e)) = Fin (- (real_of_int m * pow2 e))"
proof -
  let ?w = "real_of_int m * pow2 e"
  have w: "0 < ?w" using assms(1) pow2_pos [of e] by simp
  then have a: "\<bar>?w\<bar> = ?w" "\<bar>- ?w\<bar> = ?w" by simp_all
  from w assms(2,4) show "to_double ?w = Fin ?w"
    by (simp add: to_double_def a assms(3) round_half_even_int Let_def)
  from w assms(2,4) show "to_double (- ?w) = Fin (- ?w)"
    by (simp add: to_double_def a assms(3) round_half_even_int Let_def)
qed

lemma to_double_idem:
  assumes "to_double x = Fin v"
  shows "to_double v = Fin v"
proof (cases "x = 0")
  case True
  with assms show ?thesis by (simp add: to_double_0)
next
  case False
  from assms False obtain y e where n: "normal_form \<bar>x\<bar> = (y, e)"
    and lt: "of_int (round_half_even y) * pow2 e < 2 ^ 1024"
    and v: "v = (if 0 < x then of_int (round_half_even y) * pow2 e
                 else - (of_int (round_half_even y) * pow2 e))"
    by (rule to_double_finite)
  let ?m = "round_half_even y"
  let ?w = "real_of_int ?m * pow2 e"
  from False have "0 < \<bar>x\<bar>" by simp
  from normal_form_spec [OF this n]
  have s: "- 1074 \<le> e" "0 < y" "y < 2 ^ 53" "2 ^ 52 \<le> y \<or> e = - 1074" by simp_all
  have m0: "0 \<le> ?m" using round_half_even_ge [of 0 y] s(2) by simp
  have m53: "?m \<le> 2 ^ 53" using round_half_even_le [of y "2 ^ 53"] s(3) by simp
  show ?thesis
  proof (cases "?m = 0")
    case True
    with v show ?thesis by (simp add: to_double_0)
  next
    case nz: False
    with m0 have mpos: "0 < ?m" by simp
    have rep: "to_double ?w = Fin ?w \<and> to_double (- ?w) = Fin (- ?w)"
    proof (cases "?m = 2 ^ 53")
      case True
      have w: "?w = 2 ^ 52 * pow2 (e + 1)" by (simp add: True pow2_Suc)
      have "normal_form (2 ^ 52 * pow2 (e + 1)) = (2 ^ 52, e + 1)"
        using s(1) by (intro normal_form_eq) simp_all
      then have "normal_form ?w = (real_of_int (2 ^ 52), e + 1)" by (simp add: w)
      moreover have "real_of_int (2 ^ 52) * pow2 (e + 1) = ?w" by (simp add: w)
      ultimately show ?thesis
        using to_double_representable [OF mpos lt] by blast
    next
      case False
      with m53 have lt53: "real_of_int ?m < 2 ^ 53"
        by (metis le_less of_int_less_numeral_power_cancel_iff)
      have "2 ^ 52 \<le> real_of_int ?m \<or> e = - 1074"
      proof (cases "2 ^ 52 \<le> y")
        case True
        then have "2 ^ 52 \<le> ?m" using round_half_even_ge [of "2 ^ 52" y] by simp
        then show ?thesis by (metis of_int_le_iff of_int_numeral of_int_power)
      next
        case False
        with s(4) show ?thesis by simp
      qed
      then have "normal_form ?w = (real_of_int ?m, e)"
        using mpos lt53 s(1) by (intro normal_form_eq) simp_all
      then show ?thesis
        using to_double_representable [OF mpos lt] by blast
    qed
    with v show ?thesis by (simp split: if_splits)
  qed
qed

lemma to_double_ge_1:
  assumes "1 \<le> x"
  shows "to_double x = PosInf \<or> (\<exists>v. to_double x = Fin v \<and> 0 < v)"
proof -
  from assms have x: "0 < x" "x \<noteq> 0" "\<bar>x\<bar> = x" by simp_all
  obtain y e where n: "normal_form x = (y, e)" by (cases "normal_form x") auto
  from normal_form_spec [OF x(1) n]
  have s: "y * pow2 e = x" "0 < y" "y < 2 ^ 53" "2 ^ 52 \<le> y \<or> e = - 1074" by simp_all
  have "2 ^ 52 \<le> y"
  proof (rule ccontr)
    assume c: "\<not> 2 ^ 52 \<le> y"
    with s(4) have e: "e = - 1074" by simp
    have "pow2 (- 1074) \<le> pow2 (- 52)" by (simp add: pow2_powr)
    then have "y * pow2 (- 1074) \<le> y * pow2 (- 52)" using s(2) by simp
    also have "\<dots> = y / 2 ^ 52" by (simp add: pow2_def)
    also have "\<dots> < 1" using c by simp
    finally show False using s(1) e assms by simp
  qed
  then have "2 ^ 52 \<le> round_half_even y" using round_half_even_ge [of "2 ^ 52" y] by simp
  then have "0 < round_half_even y" by simp
  then have "0 < real_of_int (round_half_even y) * pow2 e" using pow2_pos [of e] by simp
  with x n show ?thesis by (auto simp: to_double_def Let_def)
qed

lemma to_double_minus:
  "to_double (- x) = (case to_double x of Fin v \<Rightarrow> Fin (- v) | PosInf \<Rightarrow> NegInf | NegInf \<Rightarrow> PosInf | NaN \<Rightarrow> NaN)"
proof (cases "x = 0")
  case True
  then show ?thesis by (simp add: to_double_0)
next
  case False
  obtain y e where n: "normal_form \<bar>x\<bar> = (y, e)" by (cases "normal_form \<bar>x\<bar>") auto
  with False show ?thesis
    by (cases "0 < x") (auto simp: to_double_def Let_def)
qed

lemma to_double_eval:
  assumes "0 < x" and "- 1074 \<le> e" and "x < 2 ^ 53 * pow2 e"
    and "2 ^ 52 * pow2 e \<le> x \<or> e = - 1074"
    and "round_half_even (x / pow2 e) = m" and "real_of_int m * pow2 e < 2 ^ 1024"
  shows "to_double x = Fin (real_of_int m * pow2 e)"
proof -
  let ?y = "x / pow2 e"
  have p: "0 < pow2 e" by (rule pow2_pos)
  have x: "?y * pow2 e = x" using p by simp
  have y: "0 < ?y" "?y < 2 ^ 53" "2 ^ 52 \<le> ?y \<or> e = - 1074"
    using assms(1,3,4) p by (simp_all add: field_simps)
  have "normal_form (?y * pow2 e) = (?y, e)"
    using y(1,2) assms(2) y(3) by (rule normal_form_eq)
  then have "normal_form \<bar>x\<bar> = (?y, e)" using assms(1) x by simp
  with assms(1,5,6) show ?thesis by (simp add: to_double_def Let_def)
qed

lemma scale_up_shift:
  "scale_up y e = (y', e') \<Longrightarrow> e' \<le> e \<and> y' = y * 2 ^ nat (e - e')"
proof (induction y e rule: scale_up.induct)
  case (1 y e)
  show ?case
  proof (cases "y < 2 ^ 52 \<and> - 1074 < e")
    case False
    with "1.prems" show ?thesis by (subst (asm) scale_up.simps) auto
  next
    case True
    with "1.prems" have r: "scale_up (2 * y) (e - 1) = (y', e')"
      by (subst (asm) scale_up.simps) simp
    from "1.IH" [OF True r] have ih: "e' \<le> e - 1" "y' = 2 * y * 2 ^ nat (e - 1 - e')" by simp_all
    from ih(1) have "nat (e - e') = Suc (nat (e - 1 - e'))" by simp
    with ih show ?thesis by simp
  qed
qed

lemma to_double_int:
  assumes "0 < n" and "n < 2 ^ 53"
  shows "to_double (real_of_int n) = Fin (real_of_int n)"
proof -
  let ?x = "real_of_int n"
  from assms have x: "0 < ?x" "?x < 2 ^ 53" by simp_all
  then have d: "scale_down ?x 0 = (?x, 0)" by (subst scale_down.simps) simp
  obtain y e where u: "scale_up ?x 0 = (y, e)" by (cases "scale_up ?x 0") auto
  from scale_up_shift [OF u] have e: "e \<le> 0" and y: "y = ?x * 2 ^ nat (- e)" by simp_all
  have n: "normal_form \<bar>?x\<bar> = (y, e)" using x d u by (simp add: normal_form_def)
  have "y = real_of_int (n * 2 ^ nat (- e))" using y by simp
  then have r: "round_half_even y = n * 2 ^ nat (- e)" by (simp only: round_half_even_int)
  have "2 ^ nat (- e) * pow2 e = 1" using e by (simp add: pow2_def)
  then have v: "real_of_int (n * 2 ^ nat (- e)) * pow2 e = ?x" by (simp add: mult.assoc)
  from x n show ?thesis
    by (simp add: to_double_def r v Let_def del: of_int_mult of_int_power)
qed

lemma to_double_nat:
  assumes "n < 2 ^ 53"
  shows "to_double (real n) = Fin (real n)"
proof (cases "n = 0")
  case True
  then show ?thesis by (simp add: to_double_0)
next
  case False
  with assms have "0 < int n" "int n < 2 ^ 53"
    by (simp_all add: of_nat_less_numeral_power_cancel_iff)
  from to_double_int [OF this] show ?thesis by simp
qed

lemma of_count_0: "of_count 0 = Fin 0"
  by (simp add: of_count_def to_double_0)

lemma of_count_exact: "n < 2 ^ 53 \<Longrightarrow> of_count n = Fin (real n)"
  by (simp add: of_count_def to_double_nat)

lemma of_count_1: "of_count (Suc 0) = Fin 1"
  using of_count_exact [of "Suc 0"] by simp

lemma of_count_positive:
  assumes "0 < n"
  shows "of_count n = PosInf \<or> (\<exists>v. of_count n = Fin v \<and> 0 < v)"
proof -
  from assms have "1 \<le> real n" by simp
  then show ?thesis unfolding of_count_def by (rule to_double_ge_1)
qed

lemma jdiv_by_one: "jdiv (of_count n) (of_count (Suc 0)) = of_count n"
proof (cases "of_count n")
  case (Fin v)
  then have "to_double v = Fin v" unfolding of_count_def by (rule to_double_idem)
  with Fin show ?thesis by (simp add: of_count_1)
qed (simp_all add: of_count_1)

lemma zero_by_zero: "jdiv (of_count 0) (of_count 0) = NaN"
  by (simp add: of_count_0)

lemma zero_by_positive:
  assumes "0 < n"
  shows "jdiv (of_count 0) (of_count n) = Fin 0"
  using of_count_positive [OF assms] by (auto simp: of_count_0 to_double_0)

section \<open>Searching for a character class\<close>

lemma search_from_class:
  "search_from (Regex False [[(p, One)]] False) st s =
     (if \<exists>c\<in>set s. p c then Some (length (takeWhile (\<lambda>c. \<not> p c) s)) else None)"
  by (induction s arbitrary: st) (auto simp: match_here_def)

lemma search_class_none:
  "search (Regex False [[(p, One)]] False) s = - 1 \<longleftrightarrow> (\<forall>c\<in>set s. \<not> p c)"
  by (auto simp: search_def search_from_class)

lemma search_space_none: "search re_space w = - 1 \<longleftrightarrow> no_whitespace w"
  by (simp add: re_space_def search_class_none no_whitespace_def list_all_iff)

section \<open>Words: the tokens that are kept\<close>

lemma search_letter_none: "search re_letter w = - 1 \<longleftrightarrow> \<not> has_letter w"
  by (simp add: re_letter_def search_class_none has_letter_def list_ex_iff)

lemma findFirstEmptyWord_loop_none:
  "findFirstEmptyWord_loop i ary = - 1 \<Longrightarrow> i \<le> j \<Longrightarrow> j < length ary \<Longrightarrow> has_letter (ary ! j)"
proof (induction i ary rule: findFirstEmptyWord_loop.induct)
  case (1 i ary)
  from "1.prems" have i: "i < length ary" by simp
  from "1.prems"(1) i have hl: "search re_letter (ary ! i) \<noteq> - 1"
    by (subst (asm) findFirstEmptyWord_loop.simps) (auto split: if_splits)
  with "1.prems"(1) i have rest: "findFirstEmptyWord_loop (i + 1) ary = - 1"
    by (subst (asm) findFirstEmptyWord_loop.simps) (auto split: if_splits)
  show ?case
  proof (cases "j = i")
    case True
    with hl show ?thesis by (simp add: search_letter_none)
  next
    case False
    with "1.prems" have "i + 1 \<le> j" by simp
    with "1.IH" [OF i hl rest] "1.prems" show ?thesis by simp
  qed
qed

lemma findFirstEmptyWord_loop_found:
  "findFirstEmptyWord_loop i ary = int p \<Longrightarrow>
   i \<le> p \<and> p < length ary \<and> \<not> has_letter (ary ! p) \<and> (\<forall>j. i \<le> j \<and> j < p \<longrightarrow> has_letter (ary ! j))"
proof (induction i ary rule: findFirstEmptyWord_loop.induct)
  case (1 i ary)
  from "1.prems" have i: "i < length ary"
    by (subst (asm) findFirstEmptyWord_loop.simps) (auto split: if_splits)
  show ?case
  proof (cases "search re_letter (ary ! i) = - 1")
    case True
    with "1.prems" i have "p = i"
      by (subst (asm) findFirstEmptyWord_loop.simps) simp
    with True i show ?thesis by (auto simp: search_letter_none)
  next
    case False
    with "1.prems" i have rest: "findFirstEmptyWord_loop (i + 1) ary = int p"
      by (subst (asm) findFirstEmptyWord_loop.simps) simp
    from "1.IH" [OF i False rest]
    have ih: "i + 1 \<le> p" "p < length ary" "\<not> has_letter (ary ! p)"
      "\<forall>j. i + 1 \<le> j \<and> j < p \<longrightarrow> has_letter (ary ! j)"
      by auto
    have "has_letter (ary ! j)" if "i \<le> j" "j < p" for j
    proof (cases "j = i")
      case True
      with False show ?thesis by (simp add: search_letter_none)
    next
      case False
      with that ih(4) show ?thesis by simp
    qed
    with ih show ?thesis by simp
  qed
qed

lemma removeEmptyWords_filter: "removeEmptyWords ary = filter has_letter ary"
proof (induction ary rule: removeEmptyWords.induct)
  case (1 ary)
  show ?case
  proof (cases "findFirstEmptyWord ary = - 1")
    case True
    then have "\<forall>j<length ary. has_letter (ary ! j)"
      using findFirstEmptyWord_loop_none [of 0 ary] by (simp add: findFirstEmptyWord_def)
    then have "filter has_letter ary = ary"
      by (simp add: filter_id_conv in_set_conv_nth) (metis in_set_conv_nth)
    with True show ?thesis by (subst removeEmptyWords.simps) simp
  next
    case False
    then obtain p where p: "findFirstEmptyWord ary = int p"
      using findFirstEmptyWord_loop_range [of 0 ary]
      by (metis findFirstEmptyWord_def nonneg_int_cases)
    then have f: "p < length ary" "\<not> has_letter (ary ! p)" "\<forall>j<p. has_letter (ary ! j)"
      using findFirstEmptyWord_loop_found [of 0 ary p] by (auto simp: findFirstEmptyWord_def)
    have "ary = take p ary @ ary ! p # drop (Suc p) ary"
      using f(1) by (simp add: id_take_nth_drop)
    then have "filter has_letter ary = filter has_letter (take p ary) @ filter has_letter (drop (Suc p) ary)"
      using f(2) by (metis filter.simps(2) filter_append)
    then have "filter has_letter ary = filter has_letter (splice1 p ary)"
      by (simp add: splice1_def)
    moreover have "removeEmptyWords ary = removeEmptyWords (splice1 p ary)"
      using False p by (subst removeEmptyWords.simps) simp
    moreover have "removeEmptyWords (splice1 p ary) = filter has_letter (splice1 p ary)"
      using "1.IH" [of "int p"] False p by simp
    ultimately show ?thesis by simp
  qed
qed

lemma words_of_eq:
  "words_of t =
     (if t = [] then []
      else removeEmptyWords (trimNonLettersFromArray (split CHR '' '' (replace_g re_newlines '' '' t))))"
  by (simp add: words_of_def getWords_def Let_def)

lemma words_have_letters: "w \<in> set (words_of t) \<Longrightarrow> has_letter w"
  by (cases "t = []") (simp_all add: words_of_eq removeEmptyWords_filter)

section \<open>The fields of a parse\<close>

lemma getSentences_Str: "getSentences (Str t) = Inr (sentences_of t)"
  by (simp add: sentences_of_def getSentences_def Let_def)

lemma getWords_Str: "getWords (Str t) = Inr (words_of t)"
  by (simp add: words_of_def getWords_def Let_def)

lemma parseText_total: "\<exists>r. parseText (Str t) = Inr r"
  by (simp add: parseText_def getSentences_Str getWords_Str Let_def)

lemma parseText_counts:
  assumes "parseText (Str t) = Inr r"
  shows "source r = Str t" and "sentences r = sentences_of t"
    and "numSentences r = length (sentences_of t)"
    and "words r = words_of t" and "numWords r = length (words_of t)"
    and "syllables r = getNumSyllablesPerWord (words_of t)"
    and "numSyllables r = arrayAdd (syllables r)"
    and "complexWordPositions r = getComplexWordPositions (syllables r)"
    and "numComplexWords r = length (complexWordPositions r)"
    and "complexWords r = getComplexWords (words r) (complexWordPositions r)"
  using assms by (auto simp: parseText_def getSentences_Str getWords_Str Let_def)

lemma parseText_ratios:
  assumes "parseText (Str t) = Inr r"
  shows "averageWordsPerSentence r = jdiv (of_count (numWords r)) (of_count (numSentences r))"
    and "averageSyllablesPerWord r = jdiv (of_count (numSyllables r)) (of_count (numWords r))"
    and "complexWordRatio r = jdiv (of_count (numComplexWords r)) (of_count (numWords r))"
    and "complexWordsPerSentence r = jdiv (of_count (numComplexWords r)) (of_count (numSentences r))"
    and "fleschKincaidGradeLevel r =
           jsub (jadd (jmul (literal 0.39) (averageWordsPerSentence r))
                      (jmul (literal 11.8) (averageSyllablesPerWord r))) (literal 15.59)"
  using assms by (auto simp: parseText_def getSentences_Str getWords_Str Let_def)

section \<open>Syllables of a list of words\<close>

lemma foldl_push:
  "foldl (\<lambda>result w. case f w of Inr n \<Rightarrow> result @ [n] | Inl e \<Rightarrow> result) acc ws =
   acc @ concat (map (\<lambda>w. case f w of Inr n \<Rightarrow> [n] | Inl e \<Rightarrow> []) ws)"
  by (induction ws arbitrary: acc) (auto split: sum.splits)

lemma getNumSyllablesPerWord_concat:
  "getNumSyllablesPerWord ws =
   concat (map (\<lambda>w. case getNumSyllablesInWord (Str w) of Inr n \<Rightarrow> [n] | Inl e \<Rightarrow> []) ws)"
  unfolding getNumSyllablesPerWord_def 
  using foldl_push [of "\<lambda>w. getNumSyllablesInWord (Str w)" "[]" ws] by simp

lemma foldl_plus: "foldl (\<lambda>result n. result + n) (a::nat) xs = a + sum_list xs"
  by (induction xs arbitrary: a) auto

lemma arrayAdd_sum: "arrayAdd xs = sum_list xs"
  by (simp add: arrayAdd_def foldl_plus)


lemma getNumSyllablesInWord_throws:
  "isl (getNumSyllablesInWord (Str w)) \<longleftrightarrow> (w = [] \<or> \<not> no_whitespace w)"
  by (auto simp: getNumSyllablesInWord_def search_space_none Let_def split: option.splits)

lemma getNumSyllablesInWord_cases:
  "getNumSyllablesInWord (Str w) =
     (if w = [] then Inl (Thrown ''Empty string.'')
      else if \<not> no_whitespace w then Inl (Thrown ''Contains whitespace.'')
      else Inr (projr (getNumSyllablesInWord (Str w))))"
  by (auto simp: getNumSyllablesInWord_def search_space_none Let_def split: option.splits)

lemma has_letter_nonempty: "has_letter w \<Longrightarrow> w \<noteq> []"
  by (auto simp: has_letter_def)

lemma length_counted:
  assumes "\<forall>w\<in>set ws. w \<noteq> []"
  shows "length (concat (map (\<lambda>w. case getNumSyllablesInWord (Str w) of Inr n \<Rightarrow> [n] | Inl e \<Rightarrow> []) ws))
         = length (filter no_whitespace ws)"
  using assms
proof (induction ws)
  case Nil
  show ?case by simp
next
  case (Cons w ws)
  then have "w \<noteq> []" by simp
  then have "length (case getNumSyllablesInWord (Str w) of Inr n \<Rightarrow> [n] | Inl e \<Rightarrow> [])
             = (if no_whitespace w then 1 else 0)"
    by (subst getNumSyllablesInWord_cases) simp
  with Cons show ?case by simp
qed

text \<open>
  C6: \<open>parseText\<close> returns a result for every string. A word on which
  \<open>getNumSyllablesInWord\<close> throws (it is empty or contains white space, and only then)
  is skipped: \<open>syllables\<close> holds the counts of the other words, in order, one for each
  word without white space, and \<open>numSyllables\<close> is their sum.
\<close>

theorem malformed_word_skipped:
  "\<exists>r. parseText (Str text) = Inr r
      \<and> syllables r =
          concat (map (\<lambda>w. case getNumSyllablesInWord (Str w) of Inr n \<Rightarrow> [n] | Inl e \<Rightarrow> [])
                      (words r))
      \<and> length (syllables r) = length (filter no_whitespace (words r))
      \<and> numSyllables r = sum_list (syllables r)
      \<and> (\<forall>w. isl (getNumSyllablesInWord (Str w)) = (w = [] \<or> \<not> no_whitespace w))"
proof -
  obtain r where r: "parseText (Str text) = Inr r"
    using parseText_total by blast
  have w: "words r = words_of text"
    and s: "syllables r = getNumSyllablesPerWord (words_of text)"
    and n: "numSyllables r = arrayAdd (syllables r)"
    using parseText_counts [OF r] by simp_all
  have "\<forall>w\<in>set (words r). w \<noteq> []"
    using w words_have_letters has_letter_nonempty by auto
  then have "length (syllables r) = length (filter no_whitespace (words r))"
    using length_counted [of "words r"] by (simp add: s w getNumSyllablesPerWord_concat)
  with r w s n show ?thesis
    by (auto simp: getNumSyllablesPerWord_concat arrayAdd_sum getNumSyllablesInWord_throws)
qed

lemma words_of_tabbed_x: "words_of (CHR ''a'' # CHR ''b'' # CHR 0x09 # ''cd x'') = [CHR ''a'' # CHR ''b'' # CHR 0x09 # ''cd'', ''x'']"
  by code_simp

theorem malformed_word_skipped_witness:
  "\<exists>r. parseText (Str (CHR ''a'' # CHR ''b'' # CHR 0x09 # ''cd x'')) = Inr r
      \<and> words r = [CHR ''a'' # CHR ''b'' # CHR 0x09 # ''cd'', ''x'']
      \<and> syllables r = [1] \<and> numSyllables r = 1"
proof -
  obtain r where r: "parseText (Str (CHR ''a'' # CHR ''b'' # CHR 0x09 # ''cd x'')) = Inr r"
    and s: "syllables r =
          concat (map (\<lambda>w. case getNumSyllablesInWord (Str w) of Inr n \<Rightarrow> [n] | Inl e \<Rightarrow> [])
                      (words r))"
    and n: "numSyllables r = sum_list (syllables r)"
    using malformed_word_skipped [of "CHR ''a'' # CHR ''b'' # CHR 0x09 # ''cd x''"] by blast
  have w: "words r = [CHR ''a'' # CHR ''b'' # CHR 0x09 # ''cd'', ''x'']"
    using parseText_counts(4) [OF r] words_of_tabbed_x by simp
  have a: "getNumSyllablesInWord (Str (CHR ''a'' # CHR ''b'' # CHR 0x09 # ''cd'')) = Inl (Thrown ''Contains whitespace.'')"
    by code_simp
  have b: "getNumSyllablesInWord (Str ''x'') = Inr 1"
    by code_simp
  from r w s n a b show ?thesis by simp
qed

lemma words_of_tabbed:
  "words_of (CHR ''a'' # CHR ''b'' # CHR 0x09 # ''cd'') = [CHR ''a'' # CHR ''b'' # CHR 0x09 # ''cd'']"
  by code_simp

lemma syllables_of_tabbed:
  "getNumSyllablesPerWord [CHR ''a'' # CHR ''b'' # CHR 0x09 # ''cd''] = []"
  by code_simp

text \<open>
  C2: the words and the syllable counts of \<open>parseText\<close> have the same length. The text
  of one token with a tab inside, "ab<TAB>cd", has one word and no syllable count:
  \<open>split(" ")\<close> keeps the tab in the token, because the replacement of all white space
  by spaces in \<open>getWords\<close> is not assigned, and \<open>getNumSyllablesInWord\<close> throws on it.
\<close>

theorem tabbed_word_not_counted:
  "\<exists>r. parseText (Str (CHR ''a'' # CHR ''b'' # CHR 0x09 # ''cd'')) = Inr r
      \<and> length (words r) = 1 \<and> length (syllables r) = 0"
proof -
  obtain r where r: "parseText (Str (CHR ''a'' # CHR ''b'' # CHR 0x09 # ''cd'')) = Inr r"
    using parseText_total by blast
  from parseText_counts(4,6) [OF r] show ?thesis
    by (simp add: r words_of_tabbed syllables_of_tabbed)
qed

section \<open>Trimming\<close>

text \<open>
  C1: \<open>getWords("Hello, world!")\<close> is \<open>["Hello", "world"]\<close>. In the code both tokens keep
  their punctuation: the callback in \<open>trimNonLettersFromArray\<close> takes the element for
  the index, and the array has no property named "Hello," or "world!".
\<close>

theorem getWords_keeps_punctuation:
  "getWords (Str ''Hello, world!'') = Inr [''Hello,'', ''world!'']"
  by code_simp

text \<open>
  C4: \<open>trimNonLetters\<close> is idempotent. It replaces the first line feed only, so on
  "a<LF><LF>b" the second application changes the result of the first.
\<close>

theorem trimNonLetters_twice_differs:
  "trimNonLetters ''a\<newline>\<newline>b'' = ''a \<newline>b'' \<and>
   trimNonLetters (trimNonLetters ''a\<newline>\<newline>b'') = ''a  b''"
  by code_simp


section \<open>Syllables of a word\<close>

text \<open>
  C7, as stated: every string of at most three code units has one syllable. The empty
  string is such a string, and \<open>getNumSyllablesInWord\<close> throws on it.
\<close>

theorem short_word_counterexample:
  "\<not> (\<forall>w. length w \<le> 3 \<longrightarrow> getNumSyllablesInWord (Str w) = Inr 1)"
proof
  assume "\<forall>w. length w \<le> 3 \<longrightarrow> getNumSyllablesInWord (Str w) = Inr 1"
  then have "getNumSyllablesInWord (Str []) = Inr 1" by simp
  then show False by (simp add: getNumSyllablesInWord_def)
qed

text \<open>
  C7, amended: every non-empty string without white space and of at most three code
  units has exactly one syllable; the two checks that throw come before the
  short-circuit.
\<close>

theorem short_word_one_syllable:
  assumes "w \<noteq> []" and "no_whitespace w" and "length w \<le> 3"
  shows "getNumSyllablesInWord (Str w) = Inr 1"
  using assms by (simp add: getNumSyllablesInWord_def search_space_none)

theorem short_word_one_syllable_witness:
  "getNumSyllablesInWord (Str ''cat'') = Inr 1"
  using short_word_one_syllable [of "''cat''"]
  by (simp add: no_whitespace_def is_space_def code_def)

section \<open>Replacing keeps the other characters\<close>

lemma replace_all_chars: "set (replace_all r rep st s) \<subseteq> set s \<union> set rep"
proof (induction "length s" arbitrary: s st rule: less_induct)
  case less
  show ?case
  proof (cases "match_here r st s")
    case None
    show ?thesis
    proof (cases s)
      case Nil
      with None show ?thesis by (subst replace_all.simps) simp
    next
      case (Cons c cs)
      then have "set (replace_all r rep False cs) \<subseteq> set cs \<union> set rep"
        using less [of cs False] by simp
      with None Cons show ?thesis by (subst replace_all.simps) auto
    qed
  next
    case (Some n)
    show ?thesis
    proof (cases "n = 0")
      case True
      show ?thesis
      proof (cases s)
        case Nil
        with Some True show ?thesis by (subst replace_all.simps) simp
      next
        case (Cons c cs)
        then have "set (replace_all r rep False cs) \<subseteq> set cs \<union> set rep"
          using less [of cs False] by simp
        with Some True Cons show ?thesis by (subst replace_all.simps) auto
      qed
    next
      case False
      from Some have "n \<le> length s" by (rule match_here_le)
      with False have "length (drop n s) < length s" by simp
      then have "set (replace_all r rep False (drop n s)) \<subseteq> set (drop n s) \<union> set rep"
        by (rule less)
      moreover have "set (drop n s) \<subseteq> set s" by (rule set_drop_subset)
      ultimately show ?thesis
        using Some False by (subst replace_all.simps) auto
    qed
  qed
qed

lemma replace_all_nonempty:
  assumes "s \<noteq> []" and "rep \<noteq> []"
  shows "replace_all r rep st s \<noteq> []"
  using assms by (subst replace_all.simps) (auto split: option.splits list.splits)

section \<open>Sentences of a text without terminator\<close>

lemma sentence_tail_none:
  "no_terminator s \<Longrightarrow>
   match_seq [(non_terminator, Star), (is_terminator, One), (is_char CHR '')'', Opt)] False s = None"
  by (induction s) (auto simp: no_terminator_def non_terminator_def)

lemma sentence_plus_none:
  assumes "no_terminator s"
  shows "match_seq [(non_terminator, Plus), (is_terminator, One), (is_char CHR '')'', Opt)] False s = None"
proof (cases s)
  case Nil
  then show ?thesis by simp
next
  case (Cons c cs)
  with assms have cs: "no_terminator cs" by (simp add: no_terminator_def)
  from Cons sentence_tail_none [OF cs] show ?thesis by simp
qed

lemma sentence_none:
  assumes "no_terminator s"
  shows "match_here re_sentence st s = None"
proof (cases s)
  case Nil
  then show ?thesis by (simp add: match_here_def re_sentence_def)
next
  case (Cons c cs)
  with assms have c: "non_terminator c" and cs: "no_terminator cs"
    by (simp_all add: no_terminator_def)
  from Cons c sentence_plus_none [OF cs] sentence_tail_none [OF cs] show ?thesis
    by (simp add: match_here_def re_sentence_def)
qed

lemma match_all_sentence_none:
  "no_terminator s \<Longrightarrow> match_all re_sentence st s = []"
proof (induction s arbitrary: st)
  case Nil
  then show ?case by (subst match_all.simps) (simp add: sentence_none)
next
  case (Cons c cs)
  then have "no_terminator cs" by (simp add: no_terminator_def)
  with Cons show ?case by (subst match_all.simps) (simp add: sentence_none)
qed

lemma fragment_tail_all:
  "no_terminator s \<Longrightarrow> match_seq [(non_terminator, Star)] True s = Some (length s)"
  by (induction s) (auto simp: no_terminator_def)

lemma fragment_all:
  assumes "no_terminator s" and "s \<noteq> []"
  shows "match_here re_fragment st s = Some (length s)"
proof -
  obtain c cs where s: "s = c # cs" using assms(2) by (cases s) auto
  with assms(1) have c: "non_terminator c" and cs: "no_terminator cs"
    by (simp_all add: no_terminator_def)
  show ?thesis
  proof (cases cs)
    case Nil
    with s c show ?thesis by (simp add: match_here_def re_fragment_def)
  next
    case (Cons d ds)
    with cs have d: "non_terminator d" and ds: "no_terminator ds"
      by (simp_all add: no_terminator_def)
    with s c Cons fragment_tail_all [OF ds] fragment_tail_all [OF cs] show ?thesis
      by (simp add: match_here_def re_fragment_def)
  qed
qed

lemma match_all_fragment_all:
  assumes "no_terminator s" and "s \<noteq> []"
  shows "match_all re_fragment st s = [s]"
proof -
  have e: "match_all re_fragment False [] = []"
    by (subst match_all.simps) (simp add: match_here_def re_fragment_def)
  from assms e show ?thesis
    by (subst match_all.simps) (simp add: fragment_all)
qed

lemma sentences_of_eq:
  "sentences_of t =
     (if t = [] then []
      else (case match_g re_sentence (replace_g re_newlines '' '' t) of None \<Rightarrow> [] | Some ms \<Rightarrow> ms)
         @ (case match_g re_fragment (replace_g re_newlines '' '' t) of None \<Rightarrow> [] | Some fm \<Rightarrow> take 1 fm))"
  by (simp add: sentences_of_def getSentences_def Let_def split: option.splits)

lemma sentences_unterminated:
  assumes "t \<noteq> []" and "no_terminator t"
  shows "sentences_of t = [replace_g re_newlines '' '' t]"
proof -
  let ?u = "replace_g re_newlines '' '' t"
  have "set ?u \<subseteq> set t \<union> set '' ''"
    unfolding replace_g_def by (rule replace_all_chars)
  with assms(2) have nt: "no_terminator ?u"
    by (auto simp: no_terminator_def list_all_iff non_terminator_def is_terminator_def)
  have ne: "?u \<noteq> []"
    unfolding replace_g_def using assms(1) by (simp add: replace_all_nonempty)
  from nt ne show ?thesis
    using assms(1)
    by (simp add: sentences_of_eq match_g_def match_all_sentence_none match_all_fragment_all)
qed

text \<open>
  C9: a non-empty text without \<open>.\<close>, \<open>!\<close> and \<open>?\<close> is one sentence, the whole text (with
  its runs of line feeds replaced by spaces, as \<open>getSentences\<close> does first), so
  \<open>numSentences\<close> is 1 and \<open>averageWordsPerSentence\<close> is \<open>numWords\<close>.
\<close>

theorem unterminated_text_one_sentence:
  assumes "text \<noteq> []" and "no_terminator text"
  shows "\<exists>r. parseText (Str text) = Inr r
           \<and> sentences r = [replace_g re_newlines '' '' text]
           \<and> numSentences r = 1
           \<and> averageWordsPerSentence r = of_count (numWords r)"
proof -
  obtain r where r: "parseText (Str text) = Inr r"
    using parseText_total by blast
  from parseText_counts(2,3) [OF r] parseText_ratios(1) [OF r] r show ?thesis
    by (simp add: sentences_unterminated [OF assms] jdiv_by_one)
qed

lemma collapse_no_terminator_here: "replace_g re_newlines '' '' ''no terminator here'' = ''no terminator here''"
  by code_simp

lemma words_no_terminator_here: "words_of ''no terminator here'' = [''no'', ''terminator'', ''here'']"
  by code_simp

theorem unterminated_text_one_sentence_witness:
  "\<exists>r. parseText (Str ''no terminator here'') = Inr r
      \<and> sentences r = [''no terminator here'']
      \<and> numSentences r = 1
      \<and> numWords r = 3
      \<and> averageWordsPerSentence r = Fin 3"
proof -
  have "no_terminator ''no terminator here''"
    by (simp add: no_terminator_def non_terminator_def is_terminator_def)
  from unterminated_text_one_sentence [OF _ this]
  obtain r where r: "parseText (Str ''no terminator here'') = Inr r"
    and s: "sentences r = [replace_g re_newlines '' '' ''no terminator here'']"
    and n: "numSentences r = 1"
    and a: "averageWordsPerSentence r = of_count (numWords r)"
    by auto
  from parseText_counts(5) [OF r] have "numWords r = 3" by (simp add: words_no_terminator_here)
  with r s n a show ?thesis
    using of_count_exact [of 3] by (simp add: collapse_no_terminator_here)
qed

section \<open>Where the characters of the words come from\<close>

lemma star_class: "match_seq [(p, Star)] False s = Some (length (takeWhile p s))"
  by (induction s) auto

lemma match_here_plus_class:
  "match_here (Regex False [[(p, Plus)]] False) st s =
     (case s of [] \<Rightarrow> None
      | c # cs \<Rightarrow> if p c then Some (length (takeWhile p s)) else None)"
  by (cases s) (simp_all add: match_here_def star_class)

lemma replace_all_class_keeps:
  assumes "c \<in> set s" and "\<not> p c"
  shows "c \<in> set (replace_all (Regex False [[(p, Plus)]] False) rep st s)"
  using assms
proof (induction "length s" arbitrary: s st rule: less_induct)
  case less
  let ?r = "Regex False [[(p, Plus)]] False"
  from less.prems obtain d ds where s: "s = d # ds" by (cases s) auto
  show ?case
  proof (cases "p d")
    case False
    then have m: "match_here ?r st s = None" by (simp add: match_here_plus_class s)
    have "c = d \<or> c \<in> set (replace_all ?r rep False ds)"
      using less.hyps [of ds False] less.prems s by auto
    with m s show ?thesis by (subst replace_all.simps) auto
  next
    case True
    let ?n = "length (takeWhile p s)"
    from True have m: "match_here ?r st s = Some ?n" and n: "?n \<noteq> 0"
      by (simp_all add: match_here_plus_class s)
    have "c \<in> set (dropWhile p s)"
      using less.prems by (metis Un_iff set_append set_takeWhileD takeWhile_dropWhile_id)
    moreover have "dropWhile p s = drop ?n s" by (simp add: dropWhile_eq_drop)
    moreover have "length (drop ?n s) < length s" using n s by simp
    ultimately have "c \<in> set (replace_all ?r rep False (drop ?n s))"
      using less.hyps [of "drop ?n s" False] less.prems(2) by simp
    with m n show ?thesis by (subst replace_all.simps) simp
  qed
qed

lemma replace_str_chars: "set (replace_str pat rep s) \<subseteq> set s \<union> set rep"
proof (induction s)
  case Nil
  show ?case by auto
next
  case (Cons c cs)
  have "set (drop n (c # cs)) \<subseteq> set (c # cs)" for n by (rule set_drop_subset)
  with Cons show ?case by (auto simp del: drop_Suc_Cons)
qed

lemma split_nonempty: "split sep s \<noteq> []"
  by (induction s) (auto split: list.splits)

lemma split_chars: "w \<in> set (split sep s) \<Longrightarrow> set w \<subseteq> set s"
proof (induction s arbitrary: w)
  case Nil
  then show ?case by simp
next
  case (Cons c cs)
  show ?case
  proof (cases "c = sep")
    case True
    with Cons show ?thesis by auto
  next
    case False
    obtain v vs where v: "split sep cs = v # vs"
      using split_nonempty [of sep cs] by (cases "split sep cs") auto
    with False Cons.prems have "w = c # v \<or> w \<in> set vs" by simp
    moreover have "set v \<subseteq> set cs" using Cons.IH [of v] v by simp
    moreover have "w \<in> set vs \<Longrightarrow> set w \<subseteq> set cs" using Cons.IH [of w] v by simp
    ultimately show ?thesis by auto
  qed
qed

lemma trimNonLetters_chars: "set (trimNonLetters x) \<subseteq> set x \<union> {CHR '' ''}"
proof -
  let ?a = "replace_str [newline] '' '' x"
  let ?b = "replace_g re_leading [] ?a"
  have a: "set ?a \<subseteq> set x \<union> {CHR '' ''}" using replace_str_chars [of "[newline]" "'' ''" x] by simp
  have b: "set ?b \<subseteq> set ?a" using replace_all_chars [of re_leading "[]" True ?a] by (simp add: replace_g_def)
  have "set (replace_g re_trailing [] ?b) \<subseteq> set ?b"
    using replace_all_chars [of re_trailing "[]" True ?b] by (simp add: replace_g_def)
  with a b show ?thesis by (auto simp: trimNonLetters_def Let_def)
qed

lemma trim_loop_chars:
  assumes "\<forall>w\<in>set ary. set w \<subseteq> S" and "CHR '' '' \<in> S"
  shows "\<forall>w\<in>set (trimNonLettersFromArray_loop k ary). set w \<subseteq> S"
  using assms
proof (induction k ary rule: trimNonLettersFromArray_loop.induct)
  case (1 k ary)
  show ?case
  proof (cases "k < length ary")
    case False
    with "1.prems" show ?thesis by (subst trimNonLettersFromArray_loop.simps) simp
  next
    case True
    show ?thesis
    proof (cases "get_prop ary (ary ! k)")
      case (Str x)
      then have x: "x \<in> set ary"
        by (auto simp: get_prop_def split: option.splits if_splits)
      have "set (trimNonLetters x) \<subseteq> S"
        using trimNonLetters_chars [of x] x "1.prems" by auto
      then have inv: "\<forall>w\<in>set (ary[digits_value (ary ! k) := trimNonLetters x]). set w \<subseteq> S"
        using "1.prems"(1) set_update_subset_insert [of ary "digits_value (ary ! k)" "trimNonLetters x"]
        by auto
      have "trimNonLettersFromArray_loop k ary =
            trimNonLettersFromArray_loop (Suc k) (ary[digits_value (ary ! k) := trimNonLetters x])"
        using True Str by (subst trimNonLettersFromArray_loop.simps) simp
      with "1.IH"(1) [OF True refl Str inv "1.prems"(2)] show ?thesis by simp
    next
      case (Num n)
      then have "trimNonLettersFromArray_loop k ary = trimNonLettersFromArray_loop (Suc k) ary"
        using True by (subst trimNonLettersFromArray_loop.simps) simp
      with "1.IH"(2) [OF True refl Num "1.prems"] show ?thesis by simp
    next
      case Undefined
      then have "trimNonLettersFromArray_loop k ary = trimNonLettersFromArray_loop (Suc k) ary"
        using True by (subst trimNonLettersFromArray_loop.simps) simp
      with "1.IH"(3) [OF True refl Undefined "1.prems"] show ?thesis by simp
    qed
  qed
qed

lemma words_chars:
  assumes "w \<in> set (words_of t)"
  shows "set w \<subseteq> set t \<union> {CHR '' ''}"
proof (cases "t = []")
  case True
  with assms show ?thesis by (simp add: words_of_eq)
next
  case False
  let ?u = "replace_g re_newlines '' '' t"
  let ?S = "set t \<union> {CHR '' ''}"
  have u: "set ?u \<subseteq> ?S"
    using replace_all_chars [of re_newlines "'' ''" True t] by (simp add: replace_g_def)
  have "\<forall>v\<in>set (split CHR '' '' ?u). set v \<subseteq> ?S"
    using split_chars u by blast
  then have "\<forall>v\<in>set (trimNonLettersFromArray (split CHR '' '' ?u)). set v \<subseteq> ?S"
    unfolding trimNonLettersFromArray_def by (rule trim_loop_chars) simp
  with assms False show ?thesis
    by (simp add: words_of_eq removeEmptyWords_filter)
qed

lemma space_no_letter: "\<not> is_letter CHR '' ''"
  by (simp add: is_letter_def code_def)

lemma words_need_letter:
  assumes "words_of t \<noteq> []"
  shows "has_letter t"
proof -
  from assms obtain w where w: "w \<in> set (words_of t)" by (cases "words_of t") auto
  then have "has_letter w" by (rule words_have_letters)
  then obtain c where c: "c \<in> set w" "is_letter c" by (auto simp: has_letter_def list_ex_iff)
  with words_chars [OF w] space_no_letter have "c \<in> set t" by auto
  with c show ?thesis by (auto simp: has_letter_def list_ex_iff)
qed

section \<open>A text with a word has a sentence\<close>

lemma match_all_found:
  assumes "from_start r = False" and "match_here r False (drop i s) \<noteq> None"
  shows "match_all r st s \<noteq> []"
  using assms(2)
proof (induction s arbitrary: i st)
  case Nil
  with assms(1) have "match_here r st [] \<noteq> None" by (simp add: match_here_def)
  then show ?case by (subst match_all.simps) auto
next
  case (Cons c cs)
  show ?case
  proof (cases "match_here r st (c # cs)")
    case (Some n)
    then show ?thesis by (subst match_all.simps) simp
  next
    case None
    with assms(1) have "match_here r False (c # cs) = None" by (simp add: match_here_def)
    with Cons.prems obtain j where j: "i = Suc j" by (cases i) auto
    with Cons.prems have "match_here r False (drop j cs) \<noteq> None" by simp
    then have "match_all r False cs \<noteq> []" by (rule Cons.IH)
    with None show ?thesis by (subst match_all.simps) simp
  qed
qed

lemma opt_class_some: "match_seq [(p, Opt)] False s \<noteq> None"
  by (cases s) auto

lemma fragment_single:
  "non_terminator c \<Longrightarrow> match_here re_fragment False [c] \<noteq> None"
  by (simp add: match_here_def re_fragment_def)

lemma sentence_pair:
  assumes "non_terminator c" and "is_terminator d"
  shows "match_here re_sentence False (c # d # ds) \<noteq> None"
proof -
  have d: "\<not> non_terminator d" using assms(2) by (simp add: non_terminator_def)
  obtain n where "match_seq [(is_char CHR '')'', Opt)] False ds = Some n"
    using opt_class_some [of "is_char CHR '')''" ds] by auto
  with assms d show ?thesis
    by (simp add: match_here_def re_sentence_def)
qed

lemma some_pattern_matches:
  assumes "list_ex non_terminator s"
  shows "(\<exists>i. match_here re_sentence False (drop i s) \<noteq> None) \<or>
         (\<exists>i. match_here re_fragment False (drop i s) \<noteq> None)"
  using assms
proof (induction s)
  case Nil
  then show ?case by simp
next
  case (Cons c cs)
  show ?case
  proof (cases "non_terminator c")
    case False
    with Cons.prems have "list_ex non_terminator cs" by simp
    from Cons.IH [OF this] show ?thesis
    proof
      assume "\<exists>i. match_here re_sentence False (drop i cs) \<noteq> None"
      then obtain i where "match_here re_sentence False (drop (Suc i) (c # cs)) \<noteq> None" by auto
      then show ?thesis by blast
    next
      assume "\<exists>i. match_here re_fragment False (drop i cs) \<noteq> None"
      then obtain i where "match_here re_fragment False (drop (Suc i) (c # cs)) \<noteq> None" by auto
      then show ?thesis by blast
    qed
  next
    case True
    show ?thesis
    proof (cases cs)
      case Nil
      with True have "match_here re_fragment False (drop 0 (c # cs)) \<noteq> None"
        by (simp add: fragment_single)
      then show ?thesis by blast
    next
      case (Cons d ds)
      show ?thesis
      proof (cases "is_terminator d")
        case True
        with \<open>non_terminator c\<close> Cons
        have "match_here re_sentence False (drop 0 (c # cs)) \<noteq> None"
          by (simp add: sentence_pair)
        then show ?thesis by blast
      next
        case False
        with Cons have "list_ex non_terminator cs" by (simp add: non_terminator_def)
        from Cons.IH [OF this] show ?thesis
        proof
          assume "\<exists>i. match_here re_sentence False (drop i cs) \<noteq> None"
          then obtain i where "match_here re_sentence False (drop (Suc i) (c # cs)) \<noteq> None" by auto
          then show ?thesis by blast
        next
          assume "\<exists>i. match_here re_fragment False (drop i cs) \<noteq> None"
          then obtain i where "match_here re_fragment False (drop (Suc i) (c # cs)) \<noteq> None" by auto
          then show ?thesis by blast
        qed
      qed
    qed
  qed
qed

lemma letter_non_terminator: "is_letter c \<Longrightarrow> non_terminator c"
  by (auto simp: is_letter_def non_terminator_def is_terminator_def code_def)

lemma letter_not_newline: "is_letter c \<Longrightarrow> c \<noteq> newline"
  by (auto simp: is_letter_def newline_def code_def)

lemma text_with_letter_has_sentence:
  assumes "has_letter t"
  shows "sentences_of t \<noteq> []"
proof -
  let ?u = "replace_g re_newlines '' '' t"
  from assms obtain c where c: "c \<in> set t" "is_letter c"
    by (auto simp: has_letter_def list_ex_iff)
  then have "\<not> is_char newline c" by (simp add: is_char_def letter_not_newline)
  with c(1) have "c \<in> set ?u"
    unfolding replace_g_def re_newlines_def by (rule replace_all_class_keeps)
  moreover from c(2) have "non_terminator c" by (rule letter_non_terminator)
  ultimately have "list_ex non_terminator ?u"
    unfolding list_ex_iff by blast
  then have "match_all re_sentence True ?u \<noteq> [] \<or> match_all re_fragment True ?u \<noteq> []"
    using some_pattern_matches [of ?u]
      match_all_found [of re_sentence _ ?u True] match_all_found [of re_fragment _ ?u True]
    by (auto simp: re_sentence_def re_fragment_def)
  moreover from c(1) have "t \<noteq> []" by auto
  ultimately show ?thesis
    by (auto simp: sentences_of_eq match_g_def split: list.splits)
qed

lemma words_need_sentence: "words_of t \<noteq> [] \<Longrightarrow> sentences_of t \<noteq> []"
  by (rule text_with_letter_has_sentence) (rule words_need_letter)

section \<open>Passages without sentences or without words\<close>

lemma sentences_of_digit: "sentences_of ''1.'' = [''1.'']"
  by code_simp

lemma words_of_digit: "words_of ''1.'' = []"
  by code_simp

lemma syllables_none: "getNumSyllablesPerWord [] = []"
  by (simp add: getNumSyllablesPerWord_def)

lemma complex_none: "getComplexWordPositions [] = []"
  by (simp add: getComplexWordPositions_def)

lemma arrayAdd_none: "arrayAdd [] = 0"
  by (simp add: arrayAdd_def)

lemma parse_digit:
  "\<exists>r. parseText (Str ''1.'') = Inr r \<and> numSentences r = 1 \<and> numWords r = 0
      \<and> averageWordsPerSentence r = Fin 0 \<and> complexWordsPerSentence r = Fin 0"
proof -
  obtain r where r: "parseText (Str ''1.'') = Inr r"
    using parseText_total by blast
  from parseText_counts [OF r] parseText_ratios [OF r] r show ?thesis
    by (simp add: sentences_of_digit words_of_digit syllables_none complex_none
          of_count_0 of_count_1 to_double_0)
qed

lemma wordless:
  assumes "parseText (Str t) = Inr r" and "numWords r = 0"
  shows "numSyllables r = 0" and "numComplexWords r = 0"
  using parseText_counts [OF assms(1)] assms(2)
  by (simp_all add: syllables_none complex_none arrayAdd_none)

lemma sentenceless:
  assumes "parseText (Str t) = Inr r" and "numSentences r = 0"
  shows "numWords r = 0"
  using parseText_counts(3,5) [OF assms(1)] assms(2) words_need_sentence [of t] by auto

text \<open>
  C5, as stated: for a passage with no sentence or no word, \<open>parseText\<close> returns a
  record whose four ratios are NaN or an infinity. The passage "1." has one sentence
  and no word, and its words per sentence are 0 / 1 = 0.
\<close>

theorem wordless_sentence_counterexample:
  "\<not> (\<forall>text r. parseText (Str text) = Inr r \<and> (numSentences r = 0 \<or> numWords r = 0) \<longrightarrow>
        nan_or_infinity (averageWordsPerSentence r) \<and> nan_or_infinity (averageSyllablesPerWord r) \<and>
        nan_or_infinity (complexWordRatio r) \<and> nan_or_infinity (complexWordsPerSentence r))"
proof
  assume a: "\<forall>text r. parseText (Str text) = Inr r \<and> (numSentences r = 0 \<or> numWords r = 0) \<longrightarrow>
        nan_or_infinity (averageWordsPerSentence r) \<and> nan_or_infinity (averageSyllablesPerWord r) \<and>
        nan_or_infinity (complexWordRatio r) \<and> nan_or_infinity (complexWordsPerSentence r)"
  obtain r where r: "parseText (Str ''1.'') = Inr r" "numWords r = 0"
    "averageWordsPerSentence r = Fin 0"
    using parse_digit by blast
  with a have "nan_or_infinity (averageWordsPerSentence r)" by blast
  with r(3) show False by (simp add: nan_or_infinity_def)
qed

text \<open>
  C5, amended: \<open>parseText\<close> returns a record for every string and never throws. For a
  passage without words the syllables per word and the complex-word ratio are NaN; for
  a passage without sentences (which has no words either) the words per sentence and
  the complex words per sentence are NaN as well; for a passage without words that has
  a sentence these two ratios are 0.
\<close>

theorem degenerate_passage_ratios:
  "\<exists>r. parseText (Str text) = Inr r
      \<and> (numWords r = 0 \<longrightarrow>
           averageSyllablesPerWord r = NaN \<and> complexWordRatio r = NaN)
      \<and> (numSentences r = 0 \<longrightarrow>
           numWords r = 0 \<and> averageWordsPerSentence r = NaN \<and> complexWordsPerSentence r = NaN)
      \<and> (numWords r = 0 \<and> 0 < numSentences r \<longrightarrow>
           averageWordsPerSentence r = Fin 0 \<and> complexWordsPerSentence r = Fin 0)"
proof -
  obtain r where r: "parseText (Str text) = Inr r"
    using parseText_total by blast
  note ratios = parseText_ratios(1-4) [OF r]
  have a: "averageSyllablesPerWord r = NaN \<and> complexWordRatio r = NaN" if "numWords r = 0"
    using that wordless [OF r that] ratios by (simp add: zero_by_zero)
  have b: "numWords r = 0 \<and> averageWordsPerSentence r = NaN \<and> complexWordsPerSentence r = NaN"
    if "numSentences r = 0"
    using that sentenceless [OF r that] wordless [OF r sentenceless [OF r that]] ratios
    by (simp add: zero_by_zero)
  have c: "averageWordsPerSentence r = Fin 0 \<and> complexWordsPerSentence r = Fin 0"
    if "numWords r = 0" "0 < numSentences r"
    using that wordless [OF r that(1)] ratios by (simp add: zero_by_positive)
  from r a b c show ?thesis by (intro exI [of _ r]) simp
qed

lemma sentences_of_empty: "sentences_of [] = []"
  by (simp add: sentences_of_eq)

theorem degenerate_passage_ratios_witness:
  "\<exists>r. parseText (Str []) = Inr r \<and> numSentences r = 0 \<and> numWords r = 0
      \<and> averageWordsPerSentence r = NaN \<and> averageSyllablesPerWord r = NaN
      \<and> complexWordRatio r = NaN \<and> complexWordsPerSentence r = NaN"
proof -
  from degenerate_passage_ratios [of "[]"]
  obtain r where "parseText (Str []) = Inr r
      \<and> (numWords r = 0 \<longrightarrow>
           averageSyllablesPerWord r = NaN \<and> complexWordRatio r = NaN)
      \<and> (numSentences r = 0 \<longrightarrow>
           numWords r = 0 \<and> averageWordsPerSentence r = NaN \<and> complexWordsPerSentence r = NaN)
      \<and> (numWords r = 0 \<and> 0 < numSentences r \<longrightarrow>
           averageWordsPerSentence r = Fin 0 \<and> complexWordsPerSentence r = Fin 0)" ..
  then have r: "parseText (Str []) = Inr r"
    and w: "numWords r = 0 \<longrightarrow> averageSyllablesPerWord r = NaN \<and> complexWordRatio r = NaN"
    and s: "numSentences r = 0 \<longrightarrow>
           numWords r = 0 \<and> averageWordsPerSentence r = NaN \<and> complexWordsPerSentence r = NaN"
    by simp_all
  from parseText_counts(3) [OF r] have "numSentences r = 0" by (simp add: sentences_of_empty)
  with r w s show ?thesis by simp
qed

section \<open>The final-suffix rule of the syllable estimate\<close>

lemma ends_with_Cons:
  "ends_with (c # cs) suf \<longleftrightarrow> suf = c # cs \<or> ends_with cs suf"
proof (cases "length suf \<le> length cs")
  case True
  then show ?thesis by (auto simp: ends_with_def Suc_diff_le)
next
  case False
  then show ?thesis by (auto simp: ends_with_def)
qed

lemma ends_with_Nil: "ends_with [] suf \<longleftrightarrow> suf = []"
  by (auto simp: ends_with_def)

lemma final_here:
  "match_here re_final st s =
     (if s = ''es'' \<or> s = ''ed'' then Some 2 else if s = ''e'' then Some 1 else None)"
proof (cases s)
  case Nil
  then show ?thesis by (simp add: match_here_def re_final_def)
next
  case s1: (Cons a as)
  show ?thesis
  proof (cases as)
    case Nil
    with s1 show ?thesis by (auto simp: match_here_def re_final_def is_char_def)
  next
    case s2: (Cons b bs)
    show ?thesis
    proof (cases bs)
      case Nil
      with s1 s2 show ?thesis by (auto simp: match_here_def re_final_def is_char_def)
    next
      case (Cons d ds)
      with s1 s2 show ?thesis by (auto simp: match_here_def re_final_def is_char_def)
    qed
  qed
qed

lemma strip_final_suffix_Cons:
  assumes "c # cs \<noteq> ''es''" and "c # cs \<noteq> ''ed''" and "c # cs \<noteq> ''e''"
  shows "strip_final_suffix (c # cs) = c # strip_final_suffix cs"
proof -
  have es: "ends_with (c # cs) ''es'' = ends_with cs ''es''"
    using assms(1) by (subst ends_with_Cons) auto
  have ed: "ends_with (c # cs) ''ed'' = ends_with cs ''ed''"
    using assms(2) by (subst ends_with_Cons) auto
  have e: "ends_with (c # cs) ''e'' = ends_with cs ''e''"
    using assms(3) by (subst ends_with_Cons) auto
  have t: "take (length (c # cs) - k) (c # cs) = c # take (length cs - k) cs"
    if "k \<le> length cs" for k
    using that by (simp add: Suc_diff_le)
  have l: "length suf \<le> length cs" if "ends_with cs suf" for suf
    using that by (simp add: ends_with_def)
  show ?thesis
  proof (cases "ends_with cs ''es''")
    case True
    with l [OF True] t [of 2] show ?thesis
      unfolding strip_final_suffix_def es by simp
  next
    case no_es: False
    show ?thesis
    proof (cases "ends_with cs ''ed''")
      case True
      with no_es l [OF True] t [of 2] show ?thesis
        unfolding strip_final_suffix_def es ed by simp
    next
      case no_ed: False
      show ?thesis
      proof (cases "ends_with cs ''e''")
        case True
        with no_es no_ed l [OF True] t [of 1] show ?thesis
          unfolding strip_final_suffix_def es ed e by simp
      next
        case False
        with no_es no_ed show ?thesis
          unfolding strip_final_suffix_def es ed e by simp
      qed
    qed
  qed
qed

lemma replace_final: "replace_from re_final [] st s = strip_final_suffix s"
proof (induction s arbitrary: st)
  case Nil
  show ?case by (simp add: final_here strip_final_suffix_def ends_with_Nil)
next
  case (Cons c cs)
  show ?case
  proof (cases "c # cs = ''es'' \<or> c # cs = ''ed'' \<or> c # cs = ''e''")
    case True
    then show ?thesis
      by (auto simp: final_here strip_final_suffix_def ends_with_def)
  next
    case False
    then have "match_here re_final st (c # cs) = None" by (simp add: final_here)
    with False Cons show ?thesis by (simp add: strip_final_suffix_Cons)
  qed
qed

lemma lastIndexOf_le:
  assumes "2 \<le> length s"
  shows "lastIndexOf s ''le'' \<noteq> int (length s) - 2 \<longleftrightarrow> \<not> ends_with s ''le''"
proof -
  from assms obtain m where m: "length s = Suc (Suc m)"
    by (metis Suc_le_D numeral_2_eq_2 Suc_le_mono)
  have r: "rev [0..<Suc (length s)] = Suc (Suc m) # Suc m # m # rev [0..<m]"
    by (simp add: m)
  have o: "\<not> occurs_at ''le'' s (Suc (Suc m))" "\<not> occurs_at ''le'' s (Suc m)"
    by (simp_all add: occurs_at_def m)
  have e: "occurs_at ''le'' s m \<longleftrightarrow> ends_with s ''le''"
    by (simp add: occurs_at_def ends_with_def m)
  show ?thesis
  proof (cases "occurs_at ''le'' s m")
    case True
    with o e show ?thesis by (simp add: lastIndexOf_def r m)
  next
    case False
    have "(case filter (occurs_at ''le'' s) (rev [0..<m]) of [] \<Rightarrow> - 1 | i # _ \<Rightarrow> int i) < int m"
    proof (cases "filter (occurs_at ''le'' s) (rev [0..<m])")
      case Nil
      then show ?thesis by simp
    next
      case (Cons i js)
      then have "i \<in> set (filter (occurs_at ''le'' s) (rev [0..<m]))" by simp
      then have "i < m" by simp
      with Cons show ?thesis by simp
    qed
    with False o e show ?thesis by (simp add: lastIndexOf_def r m)
  qed
qed

lemma vowel_here:
  "match_here re_vowel st s = (case s of [] \<Rightarrow> None | c # cs \<Rightarrow> if is_vowel c then Some 1 else None)"
  by (cases s) (simp_all add: match_here_def re_vowel_def)

lemma count_vowels: "length (match_all re_vowel st s) = length (filter is_vowel s)"
proof (induction s arbitrary: st)
  case Nil
  show ?case by (subst match_all.simps) (simp add: vowel_here)
next
  case (Cons c cs)
  then show ?case by (subst match_all.simps) (simp add: vowel_here)
qed

lemma a_vowel: "is_vowel CHR ''a''"
  by (simp add: is_vowel_def)

lemma collapse_vowels:
  "length (filter is_vowel (replace_all re_vowels ''a'' st s)) = vowel_runs s"
proof (induction "length s" arbitrary: s st rule: less_induct)
  case less
  show ?case
  proof (cases s)
    case Nil
    then show ?thesis
      by (subst replace_all.simps) (simp add: re_vowels_def match_here_plus_class)
  next
    case (Cons c cs)
    show ?thesis
    proof (cases "is_vowel c")
      case False
      then have "match_here re_vowels st s = None"
        by (simp add: re_vowels_def match_here_plus_class Cons)
      with Cons False less [of cs False] show ?thesis
        by (subst replace_all.simps) simp
    next
      case True
      let ?n = "length (takeWhile is_vowel s)"
      from True have m: "match_here re_vowels st s = Some ?n" and n: "?n \<noteq> 0"
        by (simp_all add: re_vowels_def match_here_plus_class Cons)
      have d: "drop ?n s = dropWhile is_vowel cs"
        using True by (simp add: Cons flip: dropWhile_eq_drop)
      have "length (dropWhile is_vowel cs) < length s"
        using length_dropWhile_le [of is_vowel cs] by (simp add: Cons)
      then have "length (filter is_vowel (replace_all re_vowels ''a'' False (dropWhile is_vowel cs)))
                 = vowel_runs (dropWhile is_vowel cs)"
        by (rule less)
      with m n d True show ?thesis
        by (subst replace_all.simps) (simp add: Cons a_vowel)
    qed
  qed
qed

lemma count_collapsed:
  "(case match_g re_vowel (replace_g re_vowels ''a'' l) of
      None \<Rightarrow> Inr 0 | Some matches \<Rightarrow> Inr (length matches)) = (Inr (vowel_runs l) :: exn + nat)"
proof -
  have "length (match_all re_vowel True (replace_all re_vowels ''a'' True l)) = vowel_runs l"
    by (simp add: count_vowels collapse_vowels)
  then show ?thesis
    by (auto simp: match_g_def replace_g_def split: list.splits)
qed

text \<open>
  C8: for a word of more than three characters (without white space, so that the
  estimate is defined), \<open>getNumSyllablesInWord\<close> counts the vowel runs of the lower-cased
  word after removing one final \<open>es\<close>, \<open>ed\<close> or \<open>e\<close>, unless the lower-cased word ends in
  \<open>le\<close>, which is counted as it is; "little" has 2 syllables and "hoped" has 1.
\<close>

theorem final_suffix_rule:
  "(3 < length w \<and> no_whitespace w \<longrightarrow>
      getNumSyllablesInWord (Str w) =
        Inr (vowel_runs (if ends_with (toLowerCase w) ''le'' then toLowerCase w
                         else strip_final_suffix (toLowerCase w))))
   \<and> getNumSyllablesInWord (Str ''little'') = Inr 2
   \<and> getNumSyllablesInWord (Str ''hoped'') = Inr 1"
proof (intro conjI impI)
  assume a: "3 < length w \<and> no_whitespace w"
  let ?l = "toLowerCase w"
  from a have l: "2 \<le> length ?l" by (simp add: toLowerCase_def)
  from a have ne: "w \<noteq> []" by auto
  have "getNumSyllablesInWord (Str w) =
     (let word = (if lastIndexOf ?l ''le'' \<noteq> int (length ?l) - 2
                  then replace re_final [] ?l else ?l);
          word = replace_g re_vowels ''a'' word
      in (case match_g re_vowel word of None \<Rightarrow> Inr 0 | Some matches \<Rightarrow> Inr (length matches)))"
    using a ne by (simp add: getNumSyllablesInWord_def search_space_none Let_def)
  then show "getNumSyllablesInWord (Str w) =
        Inr (vowel_runs (if ends_with ?l ''le'' then ?l else strip_final_suffix ?l))"
    by (simp add: Let_def count_collapsed lastIndexOf_le [OF l] replace_def replace_final)
next
  show "getNumSyllablesInWord (Str ''little'') = Inr 2" by code_simp
next
  show "getNumSyllablesInWord (Str ''hoped'') = Inr 1" by code_simp
qed

lemma hopes_runs:
  "vowel_runs (if ends_with (toLowerCase ''Hopes'') ''le'' then toLowerCase ''Hopes''
               else strip_final_suffix (toLowerCase ''Hopes'')) = 1"
  by code_simp

lemma hopes_no_whitespace: "no_whitespace ''Hopes''"
  by code_simp

theorem final_suffix_rule_witness:
  "getNumSyllablesInWord (Str ''Hopes'') = Inr 1"
  using final_suffix_rule [of "''Hopes''"] unfolding hopes_runs
  by (simp add: hopes_no_whitespace)

section \<open>Two grade levels in doubles\<close>

text \<open>
  The grade level of a sentence of one word and one syllable, and of a sentence of two
  words and two syllables: -3.3999999999999986 and -3.01 as JavaScript prints them.
\<close>

lemma double_039: "to_double (0.39) = Fin (3512807709348987 / 2 ^ 53)"
  using to_double_eval [of "0.39" "- 54" 7025615418697974]
  by (simp add: pow2_def round_half_even_def)

lemma double_118: "to_double (11.8) = Fin (3321404725185741 / 2 ^ 48)"
  using to_double_eval [of "11.8" "- 49" 6642809450371482]
  by (simp add: pow2_def round_half_even_def)

lemma double_1559: "to_double (15.59) = Fin (4388194886919127 / 2 ^ 48)"
  using to_double_eval [of "15.59" "- 49" 8776389773838254]
  by (simp add: pow2_def round_half_even_def)

lemma grade_sum_1: "to_double (3512807709348987 / 2 ^ 53 + 3321404725185741 / 2 ^ 48) = Fin (3431179966102897 / 2 ^ 48)"
  using to_double_eval [of "3512807709348987 / 2 ^ 53 + 3321404725185741 / 2 ^ 48" "- 49" 6862359932205794]
  by (simp add: pow2_def round_half_even_def)

lemma grade_diff_1: "to_double (4388194886919127 / 2 ^ 48 - 3431179966102897 / 2 ^ 48) = Fin (478507460408115 / 2 ^ 47)"
  using to_double_eval [of "4388194886919127 / 2 ^ 48 - 3431179966102897 / 2 ^ 48" "- 51" 7656119366529840]
  by (simp add: pow2_def round_half_even_def)

lemma grade_prod_2: "to_double (3512807709348987 / 2 ^ 53 * 2) = Fin (3512807709348987 / 2 ^ 52)"
  using to_double_eval [of "3512807709348987 / 2 ^ 53 * 2" "- 53" 7025615418697974]
  by (simp add: pow2_def round_half_even_def)

lemma grade_sum_2: "to_double (3512807709348987 / 2 ^ 52 + 3321404725185741 / 2 ^ 48) = Fin (7081910414040105 / 2 ^ 49)"
  using to_double_eval [of "3512807709348987 / 2 ^ 52 + 3321404725185741 / 2 ^ 48" "- 49" 7081910414040105]
  by (simp add: pow2_def round_half_even_def)

lemma grade_diff_2: "to_double (4388194886919127 / 2 ^ 48 - 7081910414040105 / 2 ^ 49) = Fin (1694479359798149 / 2 ^ 49)"
  using to_double_eval [of "4388194886919127 / 2 ^ 48 - 7081910414040105 / 2 ^ 49" "- 51" 6777917439192596]
  by (simp add: pow2_def round_half_even_def)

lemma to_double_sub:
  "to_double (a - b) = (case to_double (b - a) of Fin v \<Rightarrow> Fin (- v) | PosInf \<Rightarrow> NegInf | NegInf \<Rightarrow> PosInf | NaN \<Rightarrow> NaN)"
  using to_double_minus [of "b - a"] by simp

lemma grade_1_1:
  "jsub (jadd (jmul (literal 0.39) (Fin 1)) (jmul (literal 11.8) (Fin 1))) (literal 15.59)
   = Fin (- (478507460408115 / 2 ^ 47))"
proof -
  have a: "jmul (literal 0.39) (Fin 1) = Fin (3512807709348987 / 2 ^ 53)"
    unfolding literal_def double_039 jmul.simps mult_1_right by (rule to_double_idem [OF double_039])
  have b: "jmul (literal 11.8) (Fin 1) = Fin (3321404725185741 / 2 ^ 48)"
    unfolding literal_def double_118 jmul.simps mult_1_right by (rule to_double_idem [OF double_118])
  have c: "jadd (Fin (3512807709348987 / 2 ^ 53)) (Fin (3321404725185741 / 2 ^ 48)) = Fin (3431179966102897 / 2 ^ 48)"
    by (simp only: jadd.simps grade_sum_1)
  have d: "jsub (Fin (3431179966102897 / 2 ^ 48)) (literal 15.59) = Fin (- (478507460408115 / 2 ^ 47))"
    unfolding jsub_def literal_def double_1559 jneg.simps jadd.simps
    by (simp only: diff_conv_add_uminus [symmetric] to_double_sub [of "3431179966102897 / 2 ^ 48"] grade_diff_1 jsnum.case)
  show ?thesis unfolding a b c d ..
qed

lemma grade_2_1:
  "jsub (jadd (jmul (literal 0.39) (Fin 2)) (jmul (literal 11.8) (Fin 1))) (literal 15.59)
   = Fin (- (1694479359798149 / 2 ^ 49))"
proof -
  have a: "jmul (literal 0.39) (Fin 2) = Fin (3512807709348987 / 2 ^ 52)"
    unfolding literal_def double_039 by (simp only: jmul.simps grade_prod_2)
  have b: "jmul (literal 11.8) (Fin 1) = Fin (3321404725185741 / 2 ^ 48)"
    unfolding literal_def double_118 jmul.simps mult_1_right by (rule to_double_idem [OF double_118])
  have c: "jadd (Fin (3512807709348987 / 2 ^ 52)) (Fin (3321404725185741 / 2 ^ 48)) = Fin (7081910414040105 / 2 ^ 49)"
    by (simp only: jadd.simps grade_sum_2)
  have d: "jsub (Fin (7081910414040105 / 2 ^ 49)) (literal 15.59) = Fin (- (1694479359798149 / 2 ^ 49))"
    unfolding jsub_def literal_def double_1559 jneg.simps jadd.simps
    by (simp only: diff_conv_add_uminus [symmetric] to_double_sub [of "7081910414040105 / 2 ^ 49"] grade_diff_2 jsnum.case)
  show ?thesis unfolding a b c d ..
qed

section \<open>The order of the parsed sentences\<close>

lemma parseText_parse_of: "parseText (Str t) = Inr (parse_of t)"
  using parseText_total [of t] by (auto simp: parse_of_def)

lemma parse_each_all: "parse_each ss acc = Inr (acc @ map parse_of ss)"
  by (induction ss arbitrary: acc) (simp_all add: parseText_parse_of)

lemma parsedSentences_extend:
  "parsedSentences (result.extend r (deep_result.fields ps)) = ps"
  by (simp add: result.extend_def deep_result.fields_def result.defs deep_result.defs)

lemma deepParseText_Str:
  "deepParseText array_sort (Str t) =
     Inr (result.extend (parse_of t)
            (deep_result.fields
               (array_sort sortFleschKincaidGradeLevelDescending (map parse_of (sentences_of t)))))"
  using parseText_counts(2) [OF parseText_parse_of [of t]]
  by (simp add: deepParseText_def parseText_parse_of parse_each_all)

lemma jadd_NaN: "jadd x NaN = NaN"
  by (cases x) simp_all

lemma jmul_NaN: "jmul x NaN = NaN"
  by (cases x) simp_all

lemma jsub_NaN: "jsub NaN y = NaN" "jsub x NaN = NaN"
  by (simp_all add: jsub_def jadd_NaN)

lemma jge_NaN: "jge x NaN = False"
  by (cases x) simp_all

lemma sentences_three: "sentences_of ''a.1.a b.'' = [''a.'', ''1.'', ''a b.'']"
  by code_simp

lemma parts_a:
  "sentences_of ''a.'' = [''a.'']" "words_of ''a.'' = [''a.'']"
  "getNumSyllablesPerWord [''a.''] = [1]"
  by code_simp+

lemma parts_one:
  "sentences_of ''1.'' = [''1.'']" "words_of ''1.'' = []"
  by code_simp+

lemma parts_a_b:
  "sentences_of ''a b.'' = [''a b.'']" "words_of ''a b.'' = [''a'', ''b.'']"
  "getNumSyllablesPerWord [''a'', ''b.''] = [1, 1]"
  by code_simp+

lemma ratio_1_1: "jdiv (of_count (Suc 0)) (of_count (Suc 0)) = Fin 1"
  using jdiv_by_one [of "Suc 0"] by (simp only: of_count_1)

lemma ratio_2_1: "jdiv (of_count 2) (of_count (Suc 0)) = Fin 2"
  using jdiv_by_one [of 2] of_count_exact [of 2] by simp

lemma ratio_2_2: "jdiv (of_count 2) (of_count 2) = Fin 1"
  using of_count_exact [of 2] of_count_exact [of "Suc 0"] of_count_1
  by (simp add: of_count_def)

lemma grade_a:
  "fleschKincaidGradeLevel (parse_of ''a.'') = Fin (- (478507460408115 / 2 ^ 47))"
proof -
  note p = parseText_parse_of [of "''a.''"]
  have "numWords (parse_of ''a.'') = Suc 0" "numSentences (parse_of ''a.'') = Suc 0"
    "numSyllables (parse_of ''a.'') = Suc 0"
    using parseText_counts [OF p] by (simp_all add: parts_a arrayAdd_sum)
  then have "averageWordsPerSentence (parse_of ''a.'') = Fin 1"
    "averageSyllablesPerWord (parse_of ''a.'') = Fin 1"
    using parseText_ratios(1,2) [OF p] by (simp_all only: ratio_1_1)
  then show ?thesis
    unfolding parseText_ratios(5) [OF p] by (simp only: grade_1_1)
qed

lemma grade_one: "fleschKincaidGradeLevel (parse_of ''1.'') = NaN"
proof -
  note p = parseText_parse_of [of "''1.''"]
  have "numWords (parse_of ''1.'') = 0" "numSyllables (parse_of ''1.'') = 0"
    using parseText_counts [OF p] by (simp_all add: parts_one syllables_none arrayAdd_none)
  then have "averageSyllablesPerWord (parse_of ''1.'') = NaN"
    using parseText_ratios(2) [OF p] by (simp only: zero_by_zero)
  then show ?thesis
    unfolding parseText_ratios(5) [OF p] by (simp only: jmul_NaN jadd_NaN jsub_NaN)
qed

lemma grade_a_b:
  "fleschKincaidGradeLevel (parse_of ''a b.'') = Fin (- (1694479359798149 / 2 ^ 49))"
proof -
  note p = parseText_parse_of [of "''a b.''"]
  have "numWords (parse_of ''a b.'') = 2" "numSentences (parse_of ''a b.'') = Suc 0"
    "numSyllables (parse_of ''a b.'') = 2"
    using parseText_counts [OF p] by (simp_all add: parts_a_b arrayAdd_sum)
  then have "averageWordsPerSentence (parse_of ''a b.'') = Fin 2"
    "averageSyllablesPerWord (parse_of ''a b.'') = Fin 1"
    using parseText_ratios(1,2) [OF p] by (simp_all only: ratio_2_1 ratio_2_2)
  then show ?thesis
    unfolding parseText_ratios(5) [OF p] by (simp only: grade_2_1)
qed

lemma compare_with_NaN:
  assumes "fleschKincaidGradeLevel p = NaN"
  shows "sortFleschKincaidGradeLevelDescending r p = NaN"
    and "sortFleschKincaidGradeLevelDescending p r = NaN"
  using assms by (simp_all add: sortFleschKincaidGradeLevelDescending_def jsub_NaN)

lemma NaN_grade_unsorted:
  assumes "p \<in> set ps" and "fleschKincaidGradeLevel p = NaN" and "2 \<le> length ps"
  shows "\<not> grade_sorted ps"
proof
  assume "grade_sorted ps"
  then have s: "\<And>i j. i < j \<Longrightarrow> j < length ps \<Longrightarrow>
      jge (fleschKincaidGradeLevel (ps ! i)) (fleschKincaidGradeLevel (ps ! j))"
    by (simp add: grade_sorted_def sorted_wrt_iff_nth_less)
  from assms(1) obtain i where i: "i < length ps" "ps ! i = p"
    by (auto simp: in_set_conv_nth)
  show False
  proof (cases "i = 0")
    case True
    with s [of 0 1] assms(2,3) i show False by simp
  next
    case False
    with s [of 0 i] assms(2) i show False by (simp add: jge_NaN)
  qed
qed

text \<open>
  C3: the parsed sentences of \<open>deepParseText\<close> are in the order of non-increasing grade
  level. In "a.1.a b." the sentence "1." has no word, so its syllables per word are
  0 / 0 and its grade level is NaN. The comparison function returns NaN whenever this
  sentence is one of the two, and whatever permutation \<open>sort\<close> then returns, it is not in
  the order of non-increasing grade level. A \<open>sort\<close> that leaves the array in place
  gives the grade levels -3.3999999999999986, NaN, -3.01.
\<close>

theorem wordless_sentence_breaks_order:
  assumes "\<forall>cmp xs. mset (array_sort cmp xs) = mset xs"
  shows "\<exists>d. deepParseText array_sort (Str ''a.1.a b.'') = Inr d
           \<and> mset (parsedSentences d) = mset [parse_of ''a.'', parse_of ''1.'', parse_of ''a b.'']
           \<and> fleschKincaidGradeLevel (parse_of ''1.'') = NaN
           \<and> (\<forall>r. sortFleschKincaidGradeLevelDescending r (parse_of ''1.'') = NaN
                  \<and> sortFleschKincaidGradeLevelDescending (parse_of ''1.'') r = NaN)
           \<and> \<not> grade_sorted (parsedSentences d)"
proof -
  let ?parsed = "[parse_of ''a.'', parse_of ''1.'', parse_of ''a b.'']"
  let ?sorted = "array_sort sortFleschKincaidGradeLevelDescending ?parsed"
  let ?d = "result.extend (parse_of ''a.1.a b.'') (deep_result.fields ?sorted)"
  have d: "deepParseText array_sort (Str ''a.1.a b.'') = Inr ?d"
    by (simp add: deepParseText_Str sentences_three)
  have ps: "parsedSentences ?d = ?sorted" by (rule parsedSentences_extend)
  have m: "mset ?sorted = mset ?parsed" using assms by blast
  then have "set ?sorted = set ?parsed" by (rule mset_eq_setD)
  then have "parse_of ''1.'' \<in> set ?sorted" by simp
  moreover from m have "length ?sorted = length ?parsed" by (rule mset_eq_length)
  then have "2 \<le> length ?sorted" by simp
  ultimately have "\<not> grade_sorted ?sorted"
    using grade_one by (intro NaN_grade_unsorted)
  with d ps m grade_one compare_with_NaN [OF grade_one] show ?thesis
    by (intro exI [of _ ?d]) simp
qed

theorem wordless_sentence_breaks_order_witness:
  "\<exists>d. deepParseText (\<lambda>cmp xs. xs) (Str ''a.1.a b.'') = Inr d
      \<and> map source (parsedSentences d) = [Str ''a.'', Str ''1.'', Str ''a b.'']
      \<and> map fleschKincaidGradeLevel (parsedSentences d)
          = [Fin (- (478507460408115 / 2 ^ 47)), NaN, Fin (- (1694479359798149 / 2 ^ 49))]
      \<and> \<not> grade_sorted (parsedSentences d)"
proof -
  have "\<forall>cmp xs. mset ((\<lambda>cmp xs. xs) cmp xs) = mset (xs :: result list)" by simp
  from wordless_sentence_breaks_order [OF this]
  obtain d where d: "deepParseText (\<lambda>cmp xs. xs) (Str ''a.1.a b.'') = Inr d"
    and u: "\<not> grade_sorted (parsedSentences d)"
    by auto
  from d have p: "parsedSentences d = [parse_of ''a.'', parse_of ''1.'', parse_of ''a b.'']"
    by (auto simp: deepParseText_Str sentences_three parsedSentences_extend)
  have "map source (parsedSentences d) = [Str ''a.'', Str ''1.'', Str ''a b.'']"
    using parseText_counts(1) [OF parseText_parse_of] by (simp add: p)
  with d u p show ?thesis by (simp add: grade_a grade_one grade_a_b)
qed

end
